theory Spec2Isabelle
  imports Complex_Main
begin

section \<open>The player of \<^verbatim>\<open>src/contexts/PlayerContext.tsx\<close>\<close>

text \<open>
  The module is one React provider: a \<^verbatim>\<open>PlayerState\<close> value held by \<^verbatim>\<open>useState\<close>, one
  \<^verbatim>\<open>HTMLAudioElement\<close> held in \<^verbatim>\<open>audioRef\<close>, and callbacks that update both.  The
  embedding passes the whole of it (state, audio element, the promises returned by
  \<^verbatim>\<open>audio.play()\<close>, the \<^verbatim>\<open>playSuccess\<close> flags of the \<^verbatim>\<open>playSong\<close> invocations)
  explicitly as a record; every callback is a function on that record.

  Commands are run one at a time, each after React has re-rendered: every field a callback
  reads from its closure is in the callback's dependency list, and \<^verbatim>\<open>stateRef.current\<close>
  is re-synchronised by an effect, so \<^verbatim>\<open>state\<close>, \<^verbatim>\<open>prev\<close> and \<^verbatim>\<open>stateRef.current\<close> are the
  same value when a callback starts.  JavaScript numbers that hold times and volumes are
  reals (the code only stores and compares them); indices are integers.

  The browser is the environment: it fires events at the audio element, settles the
  promises of \<^verbatim>\<open>audio.play()\<close> and supplies the random index of a shuffle; the model takes
  each of these as an input of a step.  The cleanup of the initialising effect ends
  the provider's life and is not a step.
\<close>

subsection \<open>JavaScript primitives\<close>

text \<open>\<^verbatim>\<open>a % b\<close>: the remainder takes the sign of the dividend.\<close>

definition js_rem :: "int \<Rightarrow> int \<Rightarrow> int" where
  "js_rem a b = sgn a * (\<bar>a\<bar> mod \<bar>b\<bar>)"

text \<open>\<^verbatim>\<open>Array.prototype.findIndex\<close>: the first index whose element passes, or \<open>-1\<close>.\<close>

fun findIndex :: "('a \<Rightarrow> bool) \<Rightarrow> 'a list \<Rightarrow> int" where
  "findIndex P [] = - 1"
| "findIndex P (x # xs) =
     (if P x then 0 else (let i = findIndex P xs in if i < 0 then - 1 else i + 1))"

text \<open>\<^verbatim>\<open>xs[i]\<close>: \<^verbatim>\<open>undefined\<close> (here \<open>None\<close>) outside the array.\<close>

definition at_index :: "'a list \<Rightarrow> int \<Rightarrow> 'a option" where
  "at_index xs i = (if 0 \<le> i \<and> i < int (length xs) then Some (xs ! nat i) else None)"

subsection \<open>Data\<close>

text \<open>
  \<^verbatim>\<open>Song\<close> is declared by the API client (\<^verbatim>\<open>@/lib/api\<close>); this module reads its \<^verbatim>\<open>id\<close> and
  its \<^verbatim>\<open>filePath\<close> only.  A missing or empty \<^verbatim>\<open>filePath\<close> is the empty string (both are
  falsy).
\<close>

record Song =
  song_id :: nat
  filePath :: string

text \<open>The repeat modes \<^verbatim>\<open>'off'\<close>, \<^verbatim>\<open>'all'\<close> and \<^verbatim>\<open>'one'\<close>.\<close>

datatype RepeatMode = RepeatOff | RepeatAll | RepeatOne

record PlayerState =
  currentSong :: "Song option"
  isPlaying :: bool
  currentTime :: real
  duration :: real
  volume :: real
  queue :: "Song list"
  currentIndex :: int
  isShuffled :: bool
  repeatMode :: RepeatMode

datatype EventType =
  TimeUpdate | LoadedMetadata | Ended | Error | LoadStart | Progress | LoadedData | CanPlay

text \<open>
  The listeners the module registers.  \<open>HandleError k\<close> and \<open>AttemptPlay k\<close> are the closures
  \<^verbatim>\<open>handleError\<close> and \<^verbatim>\<open>attemptPlay\<close> created by the \<open>k\<close>-th invocation of \<^verbatim>\<open>playSong\<close> that
  starts a new track.
\<close>

datatype Handler =
  HandleTimeUpdate | HandleLoadedMetadata | HandleEnded | HandleError nat | AttemptPlay nat

datatype AudioCall = Load | Pause | Play

text \<open>
  The audio element, as far as the module touches it: the properties it assigns or reads,
  the listener table, and the method calls it makes, in order.
\<close>

record Audio =
  el_currentTime :: real
  el_duration :: real
  el_volume :: real
  el_src :: string
  el_preload :: string
  el_crossOrigin :: string
  el_listeners :: "(EventType \<times> Handler) list"
  el_calls :: "AudioCall list"

text \<open>
  A promise returned by \<^verbatim>\<open>audio.play()\<close>: what its \<^verbatim>\<open>then\<close> does (nothing, or the success
  branch of invocation \<open>k\<close>) and whether it is settled.
\<close>

datatype Continuation = NoThen | ThenSuccess nat

datatype PromiseState = Pending | Fulfilled | Rejected

record Player =
  state :: PlayerState
  audioRef :: "Audio option"
  playSuccess :: "nat set"
  invocations :: nat
  promises :: "(Continuation \<times> PromiseState) list"
  apiPlayed :: "nat list"

text \<open>
  \<open>playSuccess p\<close> holds the invocations whose local flag \<^verbatim>\<open>playSuccess\<close> is true;
  \<open>invocations p\<close> counts the closures created so far; \<open>apiPlayed p\<close> lists the calls
  \<^verbatim>\<open>api.playSong(song.id)\<close>.
\<close>

definition initialState :: PlayerState where
  "initialState =
     \<lparr>currentSong = None, isPlaying = False, currentTime = 0, duration = 0, volume = 7 / 10,
      queue = [], currentIndex = 0, isShuffled = False, repeatMode = RepeatOff\<rparr>"

definition initial :: Player where
  "initial =
     \<lparr>state = initialState, audioRef = None, playSuccess = {}, invocations = 0,
      promises = [], apiPlayed = []\<rparr>"

subsection \<open>The audio element\<close>

definition call :: "AudioCall \<Rightarrow> Audio \<Rightarrow> Audio" where
  "call c a = a\<lparr>el_calls := el_calls a @ [c]\<rparr>"

text \<open>The DOM keeps one entry per event type and callback.\<close>

definition addEventListener :: "EventType \<Rightarrow> Handler \<Rightarrow> Audio \<Rightarrow> Audio" where
  "addEventListener e h a =
     (if (e, h) \<in> set (el_listeners a) then a
      else a\<lparr>el_listeners := el_listeners a @ [(e, h)]\<rparr>)"

definition removeEventListener :: "EventType \<Rightarrow> Handler \<Rightarrow> Audio \<Rightarrow> Audio" where
  "removeEventListener e h a = a\<lparr>el_listeners := filter (\<lambda>l. l \<noteq> (e, h)) (el_listeners a)\<rparr>"

text \<open>\<^verbatim>\<open>new Audio()\<close>: no source, no listeners, nothing called yet.\<close>

definition newAudio :: Audio where
  "newAudio =
     \<lparr>el_currentTime = 0, el_duration = 0, el_volume = 1, el_src = [], el_preload = [],
      el_crossOrigin = [], el_listeners = [], el_calls = []\<rparr>"

text \<open>The effect that initialises the audio element (it runs once, after the first render).\<close>

definition mount :: "Player \<Rightarrow> Player" where
  "mount p =
     (let a1 = newAudio\<lparr>el_volume := volume (state p)\<rparr>;
          a2 = a1\<lparr>el_preload := ''auto''\<rparr>;
          a3 = a2\<lparr>el_crossOrigin := ''anonymous''\<rparr>;
          a4 = call Load a3;
          a5 = addEventListener TimeUpdate HandleTimeUpdate a4;
          a6 = addEventListener LoadedMetadata HandleLoadedMetadata a5;
          a7 = addEventListener Ended HandleEnded a6
      in p\<lparr>audioRef := Some a7\<rparr>)"

subsection \<open>Callbacks that do not start a track\<close>

definition handleTimeUpdate :: "Player \<Rightarrow> Player" where
  "handleTimeUpdate p =
     (case audioRef p of
        None \<Rightarrow> p
      | Some audio \<Rightarrow> p\<lparr>state := (state p)\<lparr>currentTime := el_currentTime audio\<rparr>\<rparr>)"

definition handleLoadedMetadata :: "Player \<Rightarrow> Player" where
  "handleLoadedMetadata p =
     (case audioRef p of
        None \<Rightarrow> p
      | Some audio \<Rightarrow> p\<lparr>state := (state p)\<lparr>duration := el_duration audio\<rparr>\<rparr>)"

definition togglePlay :: "Player \<Rightarrow> Player" where
  "togglePlay p =
     (case audioRef p of
        None \<Rightarrow> p
      | Some audio \<Rightarrow>
          if currentSong (state p) = None then p
          else
            (let p1 =
                   (if isPlaying (state p) then p\<lparr>audioRef := Some (call Pause audio)\<rparr>
                    else p\<lparr>audioRef := Some (call Play audio),
                           promises := promises p @ [(NoThen, Pending)]\<rparr>)
             in p1\<lparr>state := (state p1)\<lparr>isPlaying := \<not> isPlaying (state p1)\<rparr>\<rparr>))"

definition seek :: "real \<Rightarrow> Player \<Rightarrow> Player" where
  "seek time p =
     (case audioRef p of
        None \<Rightarrow> p
      | Some audio \<Rightarrow>
          p\<lparr>audioRef := Some (audio\<lparr>el_currentTime := time\<rparr>),
            state := (state p)\<lparr>currentTime := time\<rparr>\<rparr>)"

definition setVolume :: "real \<Rightarrow> Player \<Rightarrow> Player" where
  "setVolume v p =
     (case audioRef p of
        None \<Rightarrow> p
      | Some audio \<Rightarrow>
          p\<lparr>audioRef := Some (audio\<lparr>el_volume := v\<rparr>),
            state := (state p)\<lparr>volume := v\<rparr>\<rparr>)"

definition toggleShuffle :: "Player \<Rightarrow> Player" where
  "toggleShuffle p = p\<lparr>state := (state p)\<lparr>isShuffled := \<not> isShuffled (state p)\<rparr>\<rparr>"

definition toggleRepeat :: "Player \<Rightarrow> Player" where
  "toggleRepeat p =
     p\<lparr>state := (state p)\<lparr>repeatMode :=
         (if repeatMode (state p) = RepeatOff then RepeatAll
          else if repeatMode (state p) = RepeatAll then RepeatOne else RepeatOff)\<rparr>\<rparr>"

definition addToQueue :: "Song \<Rightarrow> Player \<Rightarrow> Player" where
  "addToQueue song p = p\<lparr>state := (state p)\<lparr>queue := queue (state p) @ [song]\<rparr>\<rparr>"

definition clearQueue :: "Player \<Rightarrow> Player" where
  "clearQueue p = p\<lparr>state := (state p)\<lparr>queue := [], currentIndex := 0\<rparr>\<rparr>"

subsection \<open>Starting a track\<close>

text \<open>
  \<^verbatim>\<open>playSong(song, queue?)\<close>.  The optional argument is \<open>None\<close> when it is left out; an empty
  array is a value like any other (it is truthy).  Invocation \<open>k\<close> of the branch that
  starts a new track creates the flag \<^verbatim>\<open>playSuccess\<close> (false: \<open>k\<close> is not in the set), the
  closures \<open>HandleError k\<close> and \<open>AttemptPlay k\<close>, and the promise of the immediate
  \<^verbatim>\<open>audio.play()\<close>.
\<close>

definition playSong :: "Song \<Rightarrow> Song list option \<Rightarrow> Player \<Rightarrow> Player" where
  "playSong song q p =
     (case audioRef p of
        None \<Rightarrow> p
      | Some audio \<Rightarrow>
          if filePath song = [] then p
          else if map_option song_id (currentSong (state p)) = Some (song_id song) then
            (if isPlaying (state p) then
               p\<lparr>audioRef := Some (call Pause audio),
                 state := (state p)\<lparr>isPlaying := False\<rparr>\<rparr>
             else
               p\<lparr>audioRef := Some (call Play audio),
                 promises := promises p @ [(NoThen, Pending)],
                 state := (state p)\<lparr>isPlaying := True\<rparr>\<rparr>)
          else
            (let k = invocations p;
                 st = (state p)
                   \<lparr>currentSong := Some song,
                    isPlaying := True,
                    queue := (case q of None \<Rightarrow> [song] | Some qs \<Rightarrow> qs),
                    currentIndex :=
                      (case q of
                         None \<Rightarrow> 0
                       | Some qs \<Rightarrow> findIndex (\<lambda>s. song_id s = song_id song) qs)\<rparr>;
                 a1 = call Pause audio;
                 a2 = a1\<lparr>el_currentTime := 0\<rparr>;
                 a3 = addEventListener Error (HandleError k) a2;
                 a4 = a3\<lparr>el_src := filePath song\<rparr>;
                 a5 = addEventListener LoadStart (AttemptPlay k) a4;
                 a6 = addEventListener Progress (AttemptPlay k) a5;
                 a7 = addEventListener LoadedData (AttemptPlay k) a6;
                 a8 = addEventListener CanPlay (AttemptPlay k) a7;
                 a9 = call Play a8
             in p\<lparr>state := st,
                  audioRef := Some a9,
                  invocations := Suc k,
                  promises := promises p @ [(ThenSuccess k, Pending)],
                  apiPlayed := apiPlayed p @ [song_id song]\<rparr>))"

text \<open>The \<^verbatim>\<open>then\<close> of a play promise of invocation \<open>k\<close>: set the flag, remove the listeners.\<close>

definition playSucceeded :: "nat \<Rightarrow> Player \<Rightarrow> Player" where
  "playSucceeded k p =
     p\<lparr>playSuccess := insert k (playSuccess p),
       audioRef :=
         map_option
           (\<lambda>audio.
              removeEventListener LoadStart (AttemptPlay k)
                (removeEventListener Progress (AttemptPlay k)
                  (removeEventListener LoadedData (AttemptPlay k)
                    (removeEventListener CanPlay (AttemptPlay k)
                      (removeEventListener Error (HandleError k) audio)))))
           (audioRef p)\<rparr>"

definition attemptPlay :: "nat \<Rightarrow> Player \<Rightarrow> Player" where
  "attemptPlay k p =
     (if k \<notin> playSuccess p then
        p\<lparr>audioRef := map_option (call Play) (audioRef p),
          promises := promises p @ [(ThenSuccess k, Pending)]\<rparr>
      else p)"

definition handleError :: "nat \<Rightarrow> Player \<Rightarrow> Player" where
  "handleError k p =
     p\<lparr>state := (state p)\<lparr>isPlaying := False\<rparr>,
       audioRef := map_option (removeEventListener Error (HandleError k)) (audioRef p)\<rparr>"

text \<open>
  The browser settles the \<open>i\<close>-th play promise: fulfilled (\<open>ok\<close>) or rejected.  The
  \<^verbatim>\<open>catch\<close> branches of the module change nothing (they log or are empty).
\<close>

definition settle :: "nat \<Rightarrow> bool \<Rightarrow> Player \<Rightarrow> Player" where
  "settle i ok p =
     (if i < length (promises p) \<and> snd (promises p ! i) = Pending then
        (let p1 = p\<lparr>promises :=
                      (promises p)[i := (fst (promises p ! i),
                                         if ok then Fulfilled else Rejected)]\<rparr>
         in if ok then
              (case fst (promises p ! i) of
                 NoThen \<Rightarrow> p1
               | ThenSuccess k \<Rightarrow> playSucceeded k p1)
            else p1)
      else p)"

subsection \<open>Queue advancement\<close>

text \<open>
  The local \<^verbatim>\<open>nextIndex\<close> of \<^verbatim>\<open>playNext\<close> and of \<^verbatim>\<open>handleEnded\<close> (the two compute it by the
  same lines).  The input \<open>x\<close> is the number \<^verbatim>\<open>Math.floor\<close> is applied to: the double that
  the machine computes for \<^verbatim>\<open>Math.random() * queue.length\<close>, a rounded product.  The model
  does not compute that product from a random number, since the product of the reals is
  not the product of the doubles; it floors the value the program floors.
\<close>

definition nextIndex :: "PlayerState \<Rightarrow> real \<Rightarrow> int" where
  "nextIndex st x =
     (if isShuffled st then \<lfloor>x\<rfloor>
      else js_rem (currentIndex st + 1) (int (length (queue st))))"

definition playNext :: "real \<Rightarrow> Player \<Rightarrow> Player" where
  "playNext x p =
     (if length (queue (state p)) = 0 then p
      else
        (let nxt = nextIndex (state p) x
         in if nxt = 0 \<and> repeatMode (state p) = RepeatOff \<and> \<not> isShuffled (state p) then
              p\<lparr>state := (state p)\<lparr>isPlaying := False\<rparr>\<rparr>
            else
              (case at_index (queue (state p)) nxt of
                 None \<Rightarrow> p
               | Some nextSong \<Rightarrow> playSong nextSong (Some (queue (state p))) p)))"

definition playPrevious :: "Player \<Rightarrow> Player" where
  "playPrevious p =
     (if length (queue (state p)) = 0 then p
      else if currentTime (state p) > 3 then
        p\<lparr>audioRef := map_option (\<lambda>audio. audio\<lparr>el_currentTime := 0\<rparr>) (audioRef p)\<rparr>
      else
        (let prevIndex =
               (if currentIndex (state p) = 0 then int (length (queue (state p))) - 1
                else currentIndex (state p) - 1)
         in case at_index (queue (state p)) prevIndex of
              None \<Rightarrow> p
            | Some prevSong \<Rightarrow> playSong prevSong (Some (queue (state p))) p))"

text \<open>
  The listener of \<^verbatim>\<open>ended\<close>.  \<^verbatim>\<open>playSongRef.current\<close> is set by an effect of the first
  render, so it holds \<^verbatim>\<open>playSong\<close> whenever the listener can run.
\<close>

definition handleEnded :: "real \<Rightarrow> Player \<Rightarrow> Player" where
  "handleEnded x p =
     (if repeatMode (state p) = RepeatOne then
        (case audioRef p of
           None \<Rightarrow> p
         | Some audio \<Rightarrow>
             p\<lparr>audioRef := Some (call Play (audio\<lparr>el_currentTime := 0\<rparr>)),
               promises := promises p @ [(NoThen, Pending)]\<rparr>)
      else if length (queue (state p)) > 0 then
        (let nxt = nextIndex (state p) x
         in if nxt = 0 \<and> repeatMode (state p) = RepeatOff \<and> \<not> isShuffled (state p) then
              p\<lparr>state := (state p)\<lparr>isPlaying := False\<rparr>\<rparr>
            else
              (case at_index (queue (state p)) nxt of
                 None \<Rightarrow> p
               | Some nextSong \<Rightarrow> playSong nextSong (Some (queue (state p))) p))
      else p)"

subsection \<open>Events and commands\<close>

fun runHandler :: "Handler \<Rightarrow> real \<Rightarrow> Player \<Rightarrow> Player" where
  "runHandler HandleTimeUpdate r p = handleTimeUpdate p"
| "runHandler HandleLoadedMetadata r p = handleLoadedMetadata p"
| "runHandler HandleEnded r p = handleEnded r p"
| "runHandler (HandleError k) r p = handleError k p"
| "runHandler (AttemptPlay k) r p = attemptPlay k p"

definition registered :: "EventType \<Rightarrow> Handler \<Rightarrow> Player \<Rightarrow> bool" where
  "registered e h p =
     (case audioRef p of None \<Rightarrow> False | Some audio \<Rightarrow> (e, h) \<in> set (el_listeners audio))"

definition handlersFor :: "EventType \<Rightarrow> Player \<Rightarrow> Handler list" where
  "handlersFor e p =
     (case audioRef p of
        None \<Rightarrow> []
      | Some audio \<Rightarrow> map snd (filter (\<lambda>l. fst l = e) (el_listeners audio)))"

text \<open>
  The browser fires event \<open>e\<close> at the audio element: the listeners registered for \<open>e\<close> when
  the dispatch starts run in registration order, each only if it is still registered.
\<close>

fun runHandlers :: "EventType \<Rightarrow> real \<Rightarrow> Handler list \<Rightarrow> Player \<Rightarrow> Player" where
  "runHandlers e r [] p = p"
| "runHandlers e r (h # hs) p =
     runHandlers e r hs (if registered e h p then runHandler h r p else p)"

definition dispatchEvent :: "EventType \<Rightarrow> real \<Rightarrow> Player \<Rightarrow> Player" where
  "dispatchEvent e r p = runHandlers e r (handlersFor e p) p"

text \<open>The browser moves the playback position or learns the track's length.\<close>

definition mediaChange :: "real \<Rightarrow> real \<Rightarrow> Player \<Rightarrow> Player" where
  "mediaChange t d p =
     p\<lparr>audioRef := map_option (\<lambda>audio. audio\<lparr>el_currentTime := t, el_duration := d\<rparr>) (audioRef p)\<rparr>"

text \<open>
  Everything that can happen to a player: the ten commands of the context, and the
  browser's three kinds of step.  The real argument of \<open>PlayNext\<close> and \<open>Fire\<close> is the
  computed value of \<^verbatim>\<open>Math.random() * queue.length\<close>, read only if the step shuffles.
\<close>

datatype Command =
    PlaySong Song "Song list option"
  | TogglePlay
  | PlayNext real
  | PlayPrevious
  | Seek real
  | SetVolume real
  | ToggleShuffle
  | ToggleRepeat
  | AddToQueue Song
  | ClearQueue
  | Fire EventType real
  | Settle nat bool
  | Media real real

fun exec :: "Command \<Rightarrow> Player \<Rightarrow> Player" where
  "exec (PlaySong song q) p = playSong song q p"
| "exec TogglePlay p = togglePlay p"
| "exec (PlayNext r) p = playNext r p"
| "exec PlayPrevious p = playPrevious p"
| "exec (Seek t) p = seek t p"
| "exec (SetVolume v) p = setVolume v p"
| "exec ToggleShuffle p = toggleShuffle p"
| "exec ToggleRepeat p = toggleRepeat p"
| "exec (AddToQueue song) p = addToQueue song p"
| "exec ClearQueue p = clearQueue p"
| "exec (Fire e r) p = dispatchEvent e r p"
| "exec (Settle i ok) p = settle i ok p"
| "exec (Media t d) p = mediaChange t d p"

fun execs :: "Command list \<Rightarrow> Player \<Rightarrow> Player" where
  "execs [] p = p"
| "execs (c # cs) p = execs cs (exec c p)"

text \<open>
  The states a player can be in: it starts as \<open>initial\<close>, the audio element is created
  once, and every command and browser step may follow.  \<open>reach ok\<close> admits the steps that
  satisfy \<open>ok\<close>.
\<close>

inductive reach :: "(Command \<Rightarrow> bool) \<Rightarrow> Player \<Rightarrow> bool" for ok :: "Command \<Rightarrow> bool" where
  reach_initial: "reach ok initial"
| reach_mount: "reach ok p \<Longrightarrow> audioRef p = None \<Longrightarrow> reach ok (mount p)"
| reach_exec: "reach ok p \<Longrightarrow> ok c \<Longrightarrow> reach ok (exec c p)"

definition reachable :: "Player \<Rightarrow> bool" where
  "reachable p = reach (\<lambda>c. True) p"

subsection \<open>Predicates used by the properties\<close>

text \<open>
  The current index is a position of the queue: not negative, below the queue's length,
  and \<open>0\<close> when the queue is empty.
\<close>

definition indexValid :: "PlayerState \<Rightarrow> bool" where
  "indexValid st =
     (0 \<le> currentIndex st
      \<and> (if queue st = [] then currentIndex st = 0
         else currentIndex st < int (length (queue st))))"


text \<open>The events on which \<^verbatim>\<open>playSong\<close> registers \<^verbatim>\<open>attemptPlay\<close>.\<close>

fun mediaLoading :: "EventType \<Rightarrow> bool" where
  "mediaLoading LoadStart = True"
| "mediaLoading Progress = True"
| "mediaLoading LoadedData = True"
| "mediaLoading CanPlay = True"
| "mediaLoading e = False"

text \<open>
  Facts that hold of every reachable player: a current song was loaded into an existing
  audio element; \<^verbatim>\<open>findIndex\<close> never returns less than \<open>-1\<close>; every closure that a flag,
  a promise or a listener refers to has been created, and the only listeners of the
  media-loading events are those of \<^verbatim>\<open>attemptPlay\<close>.
\<close>

definition hasAudio :: "Player \<Rightarrow> bool" where
  "hasAudio p = (currentSong (state p) \<noteq> None \<longrightarrow> audioRef p \<noteq> None)"

definition indexLower :: "Player \<Rightarrow> bool" where
  "indexLower p = (- 1 \<le> currentIndex (state p))"

definition closuresKnown :: "Player \<Rightarrow> bool" where
  "closuresKnown p =
     ((\<forall>k\<in>playSuccess p. k < invocations p)
      \<and> (\<forall>pr\<in>set (promises p). \<forall>k. fst pr = ThenSuccess k \<longrightarrow> k < invocations p)
      \<and> (\<forall>e k. registered e (AttemptPlay k) p \<longrightarrow> k < invocations p)
      \<and> (\<forall>e h. registered e h p \<and> mediaLoading e \<longrightarrow> (\<exists>k. h = AttemptPlay k)))"

text \<open>
  The retry mechanism of invocation \<open>k\<close>.  \<open>attempts k p\<close> counts the calls of
  \<^verbatim>\<open>audio.play()\<close> made by invocation \<open>k\<close> (the immediate one and those of \<^verbatim>\<open>attemptPlay\<close>):
  each created one promise whose \<^verbatim>\<open>then\<close> is the success branch of \<open>k\<close>.
\<close>

definition attempts :: "nat \<Rightarrow> Player \<Rightarrow> nat" where
  "attempts k p = length (filter (\<lambda>pr. fst pr = ThenSuccess k) (promises p))"

text \<open>The number of calls of \<^verbatim>\<open>audio.play()\<close> the element has received.\<close>

definition playCalls :: "Player \<Rightarrow> nat" where
  "playCalls p =
     (case audioRef p of
        None \<Rightarrow> 0
      | Some audio \<Rightarrow> length (filter (\<lambda>c. c = Play) (el_calls audio)))"

text \<open>
  Every call of \<^verbatim>\<open>audio.play()\<close> returned one promise, and every promise comes from one
  call: the \<open>i\<close>-th \<open>Play\<close> of the call log created the \<open>i\<close>-th promise.
\<close>

definition callsRecorded :: "Player \<Rightarrow> bool" where
  "callsRecorded p = (playCalls p = length (promises p))"

text \<open>Invocation \<open>k\<close> is still retrying: its flag is false and its four listeners are on.\<close>

definition retrying :: "nat \<Rightarrow> Player \<Rightarrow> bool" where
  "retrying k p =
     (k \<notin> playSuccess p
      \<and> registered LoadStart (AttemptPlay k) p
      \<and> registered Progress (AttemptPlay k) p
      \<and> registered LoadedData (AttemptPlay k) p
      \<and> registered CanPlay (AttemptPlay k) p)"

text \<open>Invocation \<open>k\<close> has succeeded: its flag is true and none of its listeners is on.\<close>

definition succeeded :: "nat \<Rightarrow> Player \<Rightarrow> bool" where
  "succeeded k p =
     (k \<in> playSuccess p
      \<and> \<not> registered LoadStart (AttemptPlay k) p
      \<and> \<not> registered Progress (AttemptPlay k) p
      \<and> \<not> registered LoadedData (AttemptPlay k) p
      \<and> \<not> registered CanPlay (AttemptPlay k) p)"

text \<open>Step \<open>c\<close> fulfils a pending play promise of invocation \<open>k\<close>.\<close>

fun fulfils :: "nat \<Rightarrow> Command \<Rightarrow> Player \<Rightarrow> bool" where
  "fulfils k (Settle i ok) p =
     (ok \<and> i < length (promises p) \<and> promises p ! i = (ThenSuccess k, Pending))"
| "fulfils k c p = False"

text \<open>
  What a step from \<open>p\<close> to \<open>p'\<close> keeps of the retry mechanism of invocation \<open>k\<close>: it stays
  retrying, no closure or attempt is forgotten, and once it has succeeded it stays so and
  makes no further attempt.
\<close>

definition retryKept :: "nat \<Rightarrow> Player \<Rightarrow> Player \<Rightarrow> bool" where
  "retryKept k p p' =
     ((retrying k p \<longrightarrow> retrying k p')
      \<and> invocations p \<le> invocations p'
      \<and> attempts k p \<le> attempts k p'
      \<and> (succeeded k p \<and> k < invocations p \<longrightarrow>
           succeeded k p' \<and> attempts k p' = attempts k p))"

text \<open>No step of the run \<open>cs\<close> from \<open>p\<close> fulfils a play promise of invocation \<open>k\<close>.\<close>

fun unfulfilled :: "nat \<Rightarrow> Command list \<Rightarrow> Player \<Rightarrow> bool" where
  "unfulfilled k [] p = True"
| "unfulfilled k (c # cs) p = (\<not> fulfils k c p \<and> unfulfilled k cs (exec c p))"

subsection \<open>Example songs\<close>

definition songA :: Song where
  "songA = \<lparr>song_id = 1, filePath = ''a.mp3''\<rparr>"

definition songB :: Song where
  "songB = \<lparr>song_id = 2, filePath = ''b.mp3''\<rparr>"

definition songC :: Song where
  "songC = \<lparr>song_id = 3, filePath = ''c.mp3''\<rparr>"

text \<open>A song object with the id of \<open>songA\<close> and no file path.\<close>

definition songA_bare :: Song where
  "songA_bare = \<lparr>song_id = 1, filePath = []\<rparr>"

section \<open>Auxiliary facts\<close>

subsection \<open>Primitives and event dispatch\<close>

lemma runHandlers_preserves:
  assumes "\<And>h p. I p \<Longrightarrow> registered e h p \<Longrightarrow> I (runHandler h r p)"
  shows "I p \<Longrightarrow> I (runHandlers e r hs p)"
  by (induction hs arbitrary: p) (simp_all add: assms)

lemma dispatchEvent_preserves:
  assumes "\<And>h p. I p \<Longrightarrow> registered e h p \<Longrightarrow> I (runHandler h r p)"
  shows "I p \<Longrightarrow> I (dispatchEvent e r p)"
  unfolding dispatchEvent_def using assms by (rule runHandlers_preserves)

lemma findIndex_lower: "- 1 \<le> findIndex P xs"
  by (induction xs) (simp_all add: Let_def)

lemma js_rem_self: "js_rem n n = 0"
  by (simp add: js_rem_def)


lemma playSong_hasAudio: "hasAudio p \<Longrightarrow> hasAudio (playSong song q p)"
  by (auto simp add: hasAudio_def playSong_def Let_def split: option.splits)

lemma playSong_indexLower: "indexLower p \<Longrightarrow> indexLower (playSong song q p)"
  by (simp add: indexLower_def playSong_def Let_def findIndex_lower split: option.splits)

lemma handleEnded_hasAudio: "hasAudio p \<Longrightarrow> hasAudio (handleEnded r p)"
proof -
  assume h: "hasAudio p"
  have stop: "hasAudio (p\<lparr>state := (state p)\<lparr>isPlaying := False\<rparr>\<rparr>)"
    using h by (simp add: hasAudio_def)
  have again: "hasAudio (p\<lparr>audioRef := Some a, promises := ps\<rparr>)" for a ps
    using h by (simp add: hasAudio_def)
  show ?thesis
    by (simp add: handleEnded_def Let_def h stop again playSong_hasAudio split: option.splits)
qed

lemma handleEnded_indexLower: "indexLower p \<Longrightarrow> indexLower (handleEnded r p)"
proof -
  assume h: "indexLower p"
  have stop: "indexLower (p\<lparr>state := (state p)\<lparr>isPlaying := False\<rparr>\<rparr>)"
    using h by (simp add: indexLower_def)
  have again: "indexLower (p\<lparr>audioRef := Some a, promises := ps\<rparr>)" for a ps
    using h by (simp add: indexLower_def)
  show ?thesis
    by (simp add: handleEnded_def Let_def h stop again playSong_indexLower split: option.splits)
qed

lemma runHandler_hasAudio: "hasAudio p \<Longrightarrow> hasAudio (runHandler h r p)"
proof (cases h)
  case HandleEnded
  assume "hasAudio p"
  with HandleEnded show ?thesis by (simp add: handleEnded_hasAudio)
qed (auto simp add: handleTimeUpdate_def handleLoadedMetadata_def handleError_def
      attemptPlay_def hasAudio_def split: option.splits)

lemma runHandler_indexLower: "indexLower p \<Longrightarrow> indexLower (runHandler h r p)"
proof (cases h)
  case HandleEnded
  assume "indexLower p"
  with HandleEnded show ?thesis by (simp add: handleEnded_indexLower)
qed (auto simp add: handleTimeUpdate_def handleLoadedMetadata_def handleError_def
      attemptPlay_def indexLower_def split: option.splits)

lemma settle_state: "state (settle i ok p) = state p"
  by (simp add: settle_def playSucceeded_def Let_def split: Continuation.splits)

lemma settle_audioRef_None: "(audioRef (settle i ok p) = None) = (audioRef p = None)"
  by (simp add: settle_def playSucceeded_def Let_def split: Continuation.splits)

lemma playNext_hasAudio: "hasAudio p \<Longrightarrow> hasAudio (playNext r p)"
proof -
  assume h: "hasAudio p"
  have stop: "hasAudio (p\<lparr>state := (state p)\<lparr>isPlaying := False\<rparr>\<rparr>)"
    using h by (simp add: hasAudio_def)
  show ?thesis
    by (simp add: playNext_def Let_def h stop playSong_hasAudio split: option.splits)
qed

lemma playNext_indexLower: "indexLower p \<Longrightarrow> indexLower (playNext r p)"
proof -
  assume h: "indexLower p"
  have stop: "indexLower (p\<lparr>state := (state p)\<lparr>isPlaying := False\<rparr>\<rparr>)"
    using h by (simp add: indexLower_def)
  show ?thesis
    by (simp add: playNext_def Let_def h stop playSong_indexLower split: option.splits)
qed

lemma playPrevious_hasAudio: "hasAudio p \<Longrightarrow> hasAudio (playPrevious p)"
proof -
  assume h: "hasAudio p"
  have restart: "hasAudio (p\<lparr>audioRef := map_option f (audioRef p)\<rparr>)" for f
    using h by (simp add: hasAudio_def)
  show ?thesis
    by (simp add: playPrevious_def Let_def h restart playSong_hasAudio split: option.splits)
qed

lemma playPrevious_indexLower: "indexLower p \<Longrightarrow> indexLower (playPrevious p)"
proof -
  assume h: "indexLower p"
  have restart: "indexLower (p\<lparr>audioRef := x\<rparr>)" for x
    using h by (simp add: indexLower_def)
  show ?thesis
    by (simp add: playPrevious_def Let_def h restart playSong_indexLower split: option.splits)
qed

lemma exec_hasAudio: "hasAudio p \<Longrightarrow> hasAudio (exec c p)"
proof (cases c)
  case (Fire e r)
  assume "hasAudio p"
  then have "hasAudio (dispatchEvent e r p)"
    by (rule dispatchEvent_preserves [where I = hasAudio, rotated]) (rule runHandler_hasAudio)
  with Fire show ?thesis by simp
next
  case (Settle i ok)
  assume "hasAudio p"
  with Settle show ?thesis by (simp add: hasAudio_def settle_state settle_audioRef_None)
qed (auto simp add: playSong_hasAudio playNext_hasAudio playPrevious_hasAudio,
     auto simp add: hasAudio_def togglePlay_def seek_def setVolume_def toggleShuffle_def
       toggleRepeat_def addToQueue_def clearQueue_def mediaChange_def Let_def
       split: option.splits)

lemma exec_indexLower: "indexLower p \<Longrightarrow> indexLower (exec c p)"
proof (cases c)
  case (Fire e r)
  assume "indexLower p"
  then have "indexLower (dispatchEvent e r p)"
    by (rule dispatchEvent_preserves [where I = indexLower, rotated]) (rule runHandler_indexLower)
  with Fire show ?thesis by simp
next
  case (Settle i ok)
  assume "indexLower p"
  with Settle show ?thesis by (simp add: indexLower_def settle_state)
qed (auto simp add: playSong_indexLower playNext_indexLower playPrevious_indexLower,
     auto simp add: indexLower_def togglePlay_def seek_def setVolume_def toggleShuffle_def
       toggleRepeat_def addToQueue_def clearQueue_def mediaChange_def Let_def
       split: option.splits)

subsection \<open>Closures, promises and listeners\<close>

lemma listeners_add [simp]:
  "set (el_listeners (addEventListener e h a)) = insert (e, h) (set (el_listeners a))"
  by (auto simp add: addEventListener_def)

lemma listeners_remove [simp]:
  "set (el_listeners (removeEventListener e h a)) = set (el_listeners a) - {(e, h)}"
  by (auto simp add: removeEventListener_def)

lemma listeners_call [simp]: "el_listeners (call c a) = el_listeners a"
  by (simp add: call_def)

lemma playSong_cases:
  obtains (same) "playSong song q p = p"
  | (pause) audio where "audioRef p = Some audio"
      "playSong song q p = p\<lparr>audioRef := Some (call Pause audio), state := (state p)\<lparr>isPlaying := False\<rparr>\<rparr>"
  | (resume) audio where "audioRef p = Some audio"
      "playSong song q p = p\<lparr>audioRef := Some (call Play audio),
                 promises := promises p @ [(NoThen, Pending)],
                 state := (state p)\<lparr>isPlaying := True\<rparr>\<rparr>"
  | (start) audio st a where "audioRef p = Some audio"
      "set (el_listeners a) = set (el_listeners audio) \<union> {(Error, HandleError (invocations p)),
          (LoadStart, AttemptPlay (invocations p)), (Progress, AttemptPlay (invocations p)),
          (LoadedData, AttemptPlay (invocations p)), (CanPlay, AttemptPlay (invocations p))}"
      "playSong song q p = p\<lparr>state := st,
                  audioRef := Some a,
                  invocations := Suc (invocations p),
                  promises := promises p @ [(ThenSuccess (invocations p), Pending)],
                  apiPlayed := apiPlayed p @ [song_id song]\<rparr>"
proof (cases "audioRef p")
  case None
  then have "playSong song q p = p" by (simp add: playSong_def)
  then show ?thesis by (rule same)
next
  case (Some audio)
  show ?thesis
  proof (cases "filePath song = []")
    case True
    with Some have "playSong song q p = p" by (simp add: playSong_def)
    then show ?thesis by (rule same)
  next
    case False
    show ?thesis
    proof (cases "map_option song_id (currentSong (state p)) = Some (song_id song)")
      case True
      show ?thesis
      proof (cases "isPlaying (state p)")
        case True
        show ?thesis
          by (rule pause [OF Some])
            (simp add: playSong_def Some \<open>filePath song \<noteq> []\<close> True
              \<open>map_option song_id (currentSong (state p)) = Some (song_id song)\<close>)
      next
        case False
        show ?thesis
          by (rule resume [OF Some])
            (simp add: playSong_def Some \<open>filePath song \<noteq> []\<close> False
              \<open>map_option song_id (currentSong (state p)) = Some (song_id song)\<close>)
      qed
    next
      case False
      let ?k = "invocations p"
      let ?a = "call Play
                 (addEventListener CanPlay (AttemptPlay ?k)
                   (addEventListener LoadedData (AttemptPlay ?k)
                     (addEventListener Progress (AttemptPlay ?k)
                       (addEventListener LoadStart (AttemptPlay ?k)
                         ((addEventListener Error (HandleError ?k)
                            ((call Pause audio)\<lparr>el_currentTime := 0\<rparr>))
                          \<lparr>el_src := filePath song\<rparr>)))))"
      let ?st = "(state p)
                   \<lparr>currentSong := Some song,
                    isPlaying := True,
                    queue := (case q of None \<Rightarrow> [song] | Some qs \<Rightarrow> qs),
                    currentIndex :=
                      (case q of
                         None \<Rightarrow> 0
                       | Some qs \<Rightarrow> findIndex (\<lambda>s. song_id s = song_id song) qs)\<rparr>"
      have eq: "playSong song q p =
                  p\<lparr>state := ?st, audioRef := Some ?a, invocations := Suc ?k,
                    promises := promises p @ [(ThenSuccess ?k, Pending)],
                    apiPlayed := apiPlayed p @ [song_id song]\<rparr>"
        by (simp only: playSong_def Some option.case False \<open>filePath song \<noteq> []\<close> if_False
              Let_def)
      have ls: "set (el_listeners ?a) = set (el_listeners audio) \<union>
                  {(Error, HandleError ?k), (LoadStart, AttemptPlay ?k),
                   (Progress, AttemptPlay ?k), (LoadedData, AttemptPlay ?k),
                   (CanPlay, AttemptPlay ?k)}"
        by auto
      show ?thesis by (rule start [OF Some ls eq])
    qed
  qed
qed


lemma closuresKnown_state [simp]: "closuresKnown (p\<lparr>state := st\<rparr>) = closuresKnown p"
  by (simp add: closuresKnown_def registered_def)

lemma playSong_closuresKnown: "closuresKnown p \<Longrightarrow> closuresKnown (playSong song q p)"
proof (cases song q p rule: playSong_cases)
  case same
  assume "closuresKnown p"
  with same show ?thesis by simp
next
  case (pause audio)
  assume "closuresKnown p"
  with pause show ?thesis by (simp add: closuresKnown_def registered_def)
next
  case (resume audio)
  assume "closuresKnown p"
  with resume show ?thesis by (simp add: closuresKnown_def registered_def)
next
  case (start audio st a)
  assume "closuresKnown p"
  with start show ?thesis by (auto simp add: closuresKnown_def registered_def less_Suc_eq)
qed

lemma handleEnded_closuresKnown: "closuresKnown p \<Longrightarrow> closuresKnown (handleEnded r p)"
proof -
  assume h: "closuresKnown p"
  have again: "closuresKnown
      (p\<lparr>audioRef := Some (call Play (a\<lparr>el_currentTime := 0\<rparr>)),
         promises := promises p @ [(NoThen, Pending)]\<rparr>)" if "audioRef p = Some a" for a
    using h that by (simp add: closuresKnown_def registered_def)
  show ?thesis
    by (simp add: handleEnded_def Let_def h again playSong_closuresKnown split: option.splits)
qed

lemma playNext_closuresKnown: "closuresKnown p \<Longrightarrow> closuresKnown (playNext r p)"
  by (simp add: playNext_def Let_def playSong_closuresKnown split: option.splits)

lemma playPrevious_closuresKnown: "closuresKnown p \<Longrightarrow> closuresKnown (playPrevious p)"
proof -
  assume h: "closuresKnown p"
  have restart: "closuresKnown
      (p\<lparr>audioRef := map_option (\<lambda>audio. audio\<lparr>el_currentTime := 0\<rparr>) (audioRef p)\<rparr>)"
    using h by (auto simp add: closuresKnown_def registered_def split: option.splits)
  show ?thesis
    by (simp add: playPrevious_def Let_def h restart playSong_closuresKnown split: option.splits)
qed

lemma runHandler_closuresKnown:
  assumes "closuresKnown p" and "registered e h p"
  shows "closuresKnown (runHandler h r p)"
proof (cases h)
  case HandleEnded
  with assms show ?thesis by (simp add: handleEnded_closuresKnown)
next
  case (AttemptPlay k)
  with assms show ?thesis
    by (auto simp add: attemptPlay_def closuresKnown_def registered_def split: option.splits)
next
  case (HandleError k)
  with assms(1) show ?thesis
    by (auto simp add: handleError_def closuresKnown_def registered_def split: option.splits)
qed (use assms(1) in \<open>simp_all add: handleTimeUpdate_def handleLoadedMetadata_def
      split: option.splits\<close>)

lemma promises_update_fst:
  "map fst (ps[i := (fst (ps ! i), s)]) = map fst ps"
proof (cases "i < length ps")
  case True
  then show ?thesis by (simp add: map_update list_update_same_conv)
next
  case False
  then have "ps[i := (fst (ps ! i), s)] = ps" by (simp add: list_update_beyond)
  then show ?thesis by simp
qed

lemma promises_update_set:
  "fst ` set (ps[i := (fst (ps ! i), s)]) = fst ` set ps"
  using promises_update_fst [of ps i s] by (metis set_map)

lemma settle_cases:
  obtains (unchanged) "settle i ok p = p"
  | (settled) s where "i < length (promises p)"
      "settle i ok p = p\<lparr>promises := (promises p)[i := (fst (promises p ! i), s)]\<rparr>"
  | (success) k where "ok" "i < length (promises p)" "promises p ! i = (ThenSuccess k, Pending)"
      "settle i ok p =
         playSucceeded k (p\<lparr>promises := (promises p)[i := (fst (promises p ! i), Fulfilled)]\<rparr>)"
proof (cases "i < length (promises p) \<and> snd (promises p ! i) = Pending")
  case False
  then have "settle i ok p = p" by (auto simp add: settle_def)
  then show ?thesis by (rule unchanged)
next
  case True
  show ?thesis
  proof (cases ok)
    case False
    with True have "settle i ok p =
        p\<lparr>promises := (promises p)[i := (fst (promises p ! i), Rejected)]\<rparr>"
      by (simp add: settle_def Let_def)
    with True show ?thesis by (auto intro: settled)
  next
    case ok: True
    show ?thesis
    proof (cases "fst (promises p ! i)")
      case NoThen
      with True ok have "settle i ok p =
          p\<lparr>promises := (promises p)[i := (fst (promises p ! i), Fulfilled)]\<rparr>"
        by (simp add: settle_def Let_def)
      with True show ?thesis by (auto intro: settled)
    next
      case (ThenSuccess k)
      with True have pr: "promises p ! i = (ThenSuccess k, Pending)"
        by (simp add: prod_eq_iff)
      from True ok ThenSuccess have "settle i ok p =
          playSucceeded k (p\<lparr>promises := (promises p)[i := (fst (promises p ! i), Fulfilled)]\<rparr>)"
        by (simp add: settle_def Let_def)
      with True ok pr show ?thesis by (auto intro: success)
    qed
  qed
qed

lemma registered_playSucceeded:
  "registered e h (playSucceeded k p) =
     (registered e h p \<and>
      (e, h) \<notin> {(Error, HandleError k), (LoadStart, AttemptPlay k), (Progress, AttemptPlay k),
                (LoadedData, AttemptPlay k), (CanPlay, AttemptPlay k)})"
  by (auto simp add: registered_def playSucceeded_def split: option.splits)

lemma registered_promises [simp]: "registered e h (p\<lparr>promises := ps\<rparr>) = registered e h p"
  by (simp add: registered_def)

lemma registered_state [simp]: "registered e h (p\<lparr>state := st\<rparr>) = registered e h p"
  by (simp add: registered_def)

lemma playSucceeded_fields [simp]:
  "playSuccess (playSucceeded k p) = insert k (playSuccess p)"
  "promises (playSucceeded k p) = promises p"
  "invocations (playSucceeded k p) = invocations p"
  "state (playSucceeded k p) = state p"
  by (simp_all add: playSucceeded_def)

lemma settle_closuresKnown: "closuresKnown p \<Longrightarrow> closuresKnown (settle i ok p)"
proof (cases i ok p rule: settle_cases)
  case unchanged
  assume "closuresKnown p"
  with unchanged show ?thesis by simp
next
  case (settled s)
  assume h: "closuresKnown p"
  have "k < invocations p"
    if "pr \<in> set ((promises p)[i := (fst (promises p ! i), s)])" and "fst pr = ThenSuccess k"
    for pr k
  proof -
    from that(1) have "fst pr \<in> fst ` set ((promises p)[i := (fst (promises p ! i), s)])"
      by (rule imageI)
    then have "fst pr \<in> fst ` set (promises p)" by (simp only: promises_update_set)
    then obtain pr' where "pr' \<in> set (promises p)" and "fst pr' = fst pr" by auto
    with h that(2) show ?thesis by (simp add: closuresKnown_def)
  qed
  with h settled show ?thesis by (simp add: closuresKnown_def)
next
  case (success k)
  assume h: "closuresKnown p"
  from success(2) have "promises p ! i \<in> set (promises p)" by (rule nth_mem)
  with h success(3) have k: "k < invocations p" by (auto simp add: closuresKnown_def)
  have "k' < invocations p"
    if "pr \<in> set ((promises p)[i := (fst (promises p ! i), Fulfilled)])"
      and "fst pr = ThenSuccess k'"
    for pr k'
  proof -
    from that(1) have "fst pr \<in> fst ` set ((promises p)[i := (fst (promises p ! i), Fulfilled)])"
      by (rule imageI)
    then have "fst pr \<in> fst ` set (promises p)" by (simp only: promises_update_set)
    then obtain pr' where "pr' \<in> set (promises p)" and "fst pr' = fst pr" by auto
    with h that(2) show ?thesis by (simp add: closuresKnown_def)
  qed
  with h k show ?thesis
    unfolding success(4) by (auto simp add: closuresKnown_def registered_playSucceeded)
qed

lemma exec_closuresKnown: "closuresKnown p \<Longrightarrow> closuresKnown (exec c p)"
proof (cases c)
  case (Fire e r)
  assume "closuresKnown p"
  then have "closuresKnown (dispatchEvent e r p)"
    by (rule dispatchEvent_preserves [where I = closuresKnown, rotated])
      (rule runHandler_closuresKnown)
  with Fire show ?thesis by simp
qed (auto simp add: playSong_closuresKnown playNext_closuresKnown playPrevious_closuresKnown
       settle_closuresKnown,
     auto simp add: closuresKnown_def registered_def togglePlay_def seek_def setVolume_def
       toggleShuffle_def toggleRepeat_def addToQueue_def clearQueue_def mediaChange_def Let_def
       call_def split: option.splits)

lemma reachable_invariants:
  "reachable p \<Longrightarrow> hasAudio p \<and> indexLower p \<and> closuresKnown p"
  unfolding reachable_def
proof (induction rule: reach.induct)
  case reach_initial
  show ?case
    by (simp add: initial_def initialState_def hasAudio_def indexLower_def closuresKnown_def
        registered_def)
next
  case (reach_mount p)
  then show ?case
    by (auto simp add: mount_def Let_def hasAudio_def indexLower_def closuresKnown_def
        registered_def newAudio_def)
next
  case (reach_exec p c)
  then show ?case by (simp add: exec_hasAudio exec_indexLower exec_closuresKnown)
qed

subsection \<open>The current index\<close>







lemma indexValid_isPlaying [simp]: "indexValid (st\<lparr>isPlaying := b\<rparr>) = indexValid st"
  by (simp add: indexValid_def)

lemma indexValid_currentTime [simp]: "indexValid (st\<lparr>currentTime := t\<rparr>) = indexValid st"
  by (simp add: indexValid_def)

lemma indexValid_duration [simp]: "indexValid (st\<lparr>duration := t\<rparr>) = indexValid st"
  by (simp add: indexValid_def)

lemma indexValid_volume [simp]: "indexValid (st\<lparr>volume := t\<rparr>) = indexValid st"
  by (simp add: indexValid_def)

lemma indexValid_isShuffled [simp]: "indexValid (st\<lparr>isShuffled := b\<rparr>) = indexValid st"
  by (simp add: indexValid_def)

lemma indexValid_repeatMode [simp]: "indexValid (st\<lparr>repeatMode := m\<rparr>) = indexValid st"
  by (simp add: indexValid_def)







subsection \<open>Reachable players\<close>

lemma reachable_hasAudio:
  "reachable p \<Longrightarrow> currentSong (state p) \<noteq> None \<Longrightarrow> \<exists>audio. audioRef p = Some audio"
  using reachable_invariants [of p] by (auto simp add: hasAudio_def)



lemma reachable_mount_initial: "reachable (mount initial)"
  unfolding reachable_def by (intro reach.intros) (simp add: initial_def)

lemma reachable_exec: "reachable p \<Longrightarrow> reachable (exec c p)"
  unfolding reachable_def by (intro reach.intros) simp_all


lemma playSong_no_filePath: "filePath song = [] \<Longrightarrow> playSong song q p = p"
  by (simp add: playSong_def split: option.splits)

subsection \<open>The retry mechanism\<close>

lemma retryKept_refl [simp]: "retryKept k p p"
  by (simp add: retryKept_def)

lemma retryKept_trans: "retryKept k p p' \<Longrightarrow> retryKept k p' p'' \<Longrightarrow> retryKept k p p''"
  by (auto simp add: retryKept_def)

lemma attempts_map: "attempts k p = length (filter (\<lambda>c. c = ThenSuccess k) (map fst (promises p)))"
  by (simp add: attempts_def filter_map comp_def)

lemma attempts_update:
  "attempts k (p\<lparr>promises := (promises p)[i := (fst (promises p ! i), s)]\<rparr>) = attempts k p"
  by (simp add: attempts_map promises_update_fst)

lemma attempts_playSucceeded [simp]: "attempts k (playSucceeded k' p) = attempts k p"
  by (simp add: attempts_def)

lemma registered_audioRef [simp]:
  "registered e h (p\<lparr>audioRef := Some a\<rparr>) = ((e, h) \<in> set (el_listeners a))"
  by (simp add: registered_def)

lemma retryKept_state [simp]: "retryKept k p (p\<lparr>state := st\<rparr>)"
  by (simp add: retryKept_def retrying_def succeeded_def attempts_def)

lemma retryKept_same_listeners:
  assumes "audioRef p = Some a" and "el_listeners a' = el_listeners a"
  shows "retryKept k p (p\<lparr>audioRef := Some a'\<rparr>)"
    and "retryKept k p (p\<lparr>audioRef := Some a', promises := promises p @ [(NoThen, Pending)]\<rparr>)"
    and "retryKept k p (p\<lparr>audioRef := Some a', state := st\<rparr>)"
    and "retryKept k p
      (p\<lparr>audioRef := Some a', promises := promises p @ [(NoThen, Pending)], state := st\<rparr>)"
  using assms
  by (simp_all add: retryKept_def retrying_def succeeded_def registered_def attempts_def)

lemma playSong_retryKept: "retryKept k p (playSong song q p)"
proof (cases song q p rule: playSong_cases)
  case same
  then show ?thesis by simp
next
  case (pause audio)
  have "retryKept k p (p\<lparr>audioRef := Some (call Pause audio)\<rparr>)"
    by (rule retryKept_same_listeners [OF pause(1)]) simp
  then have "retryKept k p
      ((p\<lparr>audioRef := Some (call Pause audio)\<rparr>)\<lparr>state := (state p)\<lparr>isPlaying := False\<rparr>\<rparr>)"
    by (rule retryKept_trans) simp
  with pause(2) show ?thesis by simp
next
  case (resume audio)
  have "retryKept k p
      (p\<lparr>audioRef := Some (call Play audio), promises := promises p @ [(NoThen, Pending)]\<rparr>)"
    by (rule retryKept_same_listeners [OF resume(1)]) simp
  then have "retryKept k p
      ((p\<lparr>audioRef := Some (call Play audio), promises := promises p @ [(NoThen, Pending)]\<rparr>)
         \<lparr>state := (state p)\<lparr>isPlaying := True\<rparr>\<rparr>)"
    by (rule retryKept_trans) simp
  with resume(2) show ?thesis by simp
next
  case (start audio st a)
  show ?thesis
    unfolding start(3) using start(1,2)
    by (auto simp add: retryKept_def retrying_def succeeded_def registered_def attempts_def)
qed


lemma handleEnded_retryKept: "retryKept k p (handleEnded r p)"
proof -
  have again: "retryKept k p
      (p\<lparr>audioRef := Some (call Play (a\<lparr>el_currentTime := 0\<rparr>)),
         promises := promises p @ [(NoThen, Pending)]\<rparr>)" if "audioRef p = Some a" for a
    by (rule retryKept_same_listeners [OF that]) simp
  show ?thesis
    by (simp add: handleEnded_def Let_def again playSong_retryKept split: option.splits)
qed

lemma playNext_retryKept: "retryKept k p (playNext r p)"
  by (simp add: playNext_def Let_def playSong_retryKept split: option.splits)

lemma playPrevious_retryKept: "retryKept k p (playPrevious p)"
proof -
  have restart: "retryKept k p
      (p\<lparr>audioRef := map_option (\<lambda>audio. audio\<lparr>el_currentTime := 0\<rparr>) (audioRef p)\<rparr>)"
  proof (cases "audioRef p")
    case None
    then show ?thesis by (simp add: retryKept_def retrying_def succeeded_def registered_def attempts_def)
  next
    case (Some a)
    have "retryKept k p (p\<lparr>audioRef := Some (a\<lparr>el_currentTime := 0\<rparr>)\<rparr>)"
      by (rule retryKept_same_listeners [OF Some]) simp
    with Some show ?thesis by simp
  qed
  show ?thesis
    by (simp add: playPrevious_def Let_def restart playSong_retryKept split: option.splits)
qed

lemma attemptPlay_retryKept: "retryKept k p (attemptPlay k' p)"
  by (auto simp add: attemptPlay_def retryKept_def retrying_def succeeded_def registered_def
      attempts_def split: option.splits)

lemma handleError_retryKept: "retryKept k p (handleError k' p)"
  by (auto simp add: handleError_def retryKept_def retrying_def succeeded_def registered_def
      attempts_def split: option.splits)

lemma runHandler_retryKept: "retryKept k p (runHandler h r p)"
  by (cases h)
    (simp_all add: handleTimeUpdate_def handleLoadedMetadata_def handleEnded_retryKept
      handleError_retryKept attemptPlay_retryKept split: option.splits)

lemma runHandlers_retryKept: "retryKept k p (runHandlers e r hs p)"
proof (induction hs arbitrary: p)
  case Nil
  show ?case by simp
next
  case (Cons h hs)
  let ?p = "if registered e h p then runHandler h r p else p"
  have "retryKept k p ?p" by (simp add: runHandler_retryKept)
  moreover have "retryKept k ?p (runHandlers e r hs ?p)" by (rule Cons.IH)
  ultimately have "retryKept k p (runHandlers e r hs ?p)" by (rule retryKept_trans)
  then show ?case by simp
qed

lemma dispatchEvent_retryKept: "retryKept k p (dispatchEvent e r p)"
  by (simp add: dispatchEvent_def runHandlers_retryKept)

lemma settle_succeeded:
  assumes "succeeded k p"
  shows "succeeded k (settle i ok p) \<and> attempts k (settle i ok p) = attempts k p
    \<and> invocations (settle i ok p) = invocations p"
proof (cases i ok p rule: settle_cases)
  case unchanged
  with assms show ?thesis by simp
next
  case (settled s)
  with assms show ?thesis by (simp add: succeeded_def attempts_update)
next
  case (success k')
  from assms show ?thesis
    unfolding success(4)
    by (auto simp add: succeeded_def registered_playSucceeded attempts_update)
qed

lemma settle_retryKept:
  assumes "\<not> fulfils k (Settle i ok) p"
  shows "retryKept k p (settle i ok p)"
proof -
  have keep: "retrying k p \<Longrightarrow> retrying k (settle i ok p)"
  proof (cases i ok p rule: settle_cases)
    case unchanged
    assume "retrying k p"
    with unchanged show ?thesis by simp
  next
    case (settled s)
    assume "retrying k p"
    with settled show ?thesis by (simp add: retrying_def)
  next
    case (success k')
    assume r: "retrying k p"
    from assms success(1-3) have "k' \<noteq> k" by auto
    with r show ?thesis
      unfolding success(4) by (simp add: retrying_def registered_playSucceeded)
  qed
  have mono: "attempts k p \<le> attempts k (settle i ok p)"
  proof (cases i ok p rule: settle_cases)
    case unchanged
    then show ?thesis by simp
  next
    case (settled s)
    show ?thesis unfolding settled(2) by (simp add: attempts_update)
  next
    case (success k')
    show ?thesis unfolding success(4) by (simp add: attempts_update)
  qed
  have inv: "invocations (settle i ok p) = invocations p"
    by (cases i ok p rule: settle_cases) simp_all
  from keep mono inv settle_succeeded [of k p i ok] show ?thesis
    by (simp add: retryKept_def)
qed

lemma exec_retryKept:
  assumes "\<not> fulfils k c p"
  shows "retryKept k p (exec c p)"
proof (cases c)
  case (Settle i ok)
  with assms show ?thesis by (simp add: settle_retryKept)
next
  case TogglePlay
  show ?thesis
  proof (cases "audioRef p")
    case None
    with TogglePlay show ?thesis by (simp add: togglePlay_def)
  next
    case (Some a)
    have "retryKept k p (p\<lparr>audioRef := Some (call Pause a), state := st\<rparr>)"
      and "retryKept k p
        (p\<lparr>audioRef := Some (call Play a), promises := promises p @ [(NoThen, Pending)],
           state := st\<rparr>)" for st
      by (rule retryKept_same_listeners [OF Some], simp)+
    with TogglePlay Some show ?thesis by (simp add: togglePlay_def Let_def)
  qed
next
  case (Seek t)
  show ?thesis
  proof (cases "audioRef p")
    case None
    with Seek show ?thesis by (simp add: seek_def)
  next
    case (Some a)
    have "retryKept k p (p\<lparr>audioRef := Some (a\<lparr>el_currentTime := t\<rparr>), state := st\<rparr>)" for st
      by (rule retryKept_same_listeners [OF Some]) simp
    with Seek Some show ?thesis by (simp add: seek_def)
  qed
next
  case (SetVolume v)
  show ?thesis
  proof (cases "audioRef p")
    case None
    with SetVolume show ?thesis by (simp add: setVolume_def)
  next
    case (Some a)
    have "retryKept k p (p\<lparr>audioRef := Some (a\<lparr>el_volume := v\<rparr>), state := st\<rparr>)" for st
      by (rule retryKept_same_listeners [OF Some]) simp
    with SetVolume Some show ?thesis by (simp add: setVolume_def)
  qed
next
  case (Media t d)
  show ?thesis
  proof (cases "audioRef p")
    case None
    with Media show ?thesis
      by (simp add: mediaChange_def retryKept_def retrying_def succeeded_def registered_def
          attempts_def)
  next
    case (Some a)
    have "retryKept k p (p\<lparr>audioRef := Some (a\<lparr>el_currentTime := t, el_duration := d\<rparr>)\<rparr>)"
      by (rule retryKept_same_listeners [OF Some]) simp
    with Media Some show ?thesis by (simp add: mediaChange_def)
  qed
qed (simp_all add: playSong_retryKept playNext_retryKept playPrevious_retryKept
      dispatchEvent_retryKept toggleShuffle_def toggleRepeat_def addToQueue_def clearQueue_def)


lemma settle_attempts: "attempts k (settle i ok p) = attempts k p"
proof (cases i ok p rule: settle_cases)
  case unchanged
  then show ?thesis by simp
next
  case (settled s)
  show ?thesis unfolding settled(2) by (simp add: attempts_update)
next
  case (success k')
  show ?thesis unfolding success(4) by (simp add: attempts_update)
qed

lemma settle_invocations: "invocations (settle i ok p) = invocations p"
proof (cases i ok p rule: settle_cases)
  case unchanged
  then show ?thesis by simp
next
  case (settled s)
  show ?thesis unfolding settled(2) by simp
next
  case (success k')
  show ?thesis unfolding success(4) by simp
qed

lemma exec_succeeded:
  assumes "succeeded k p" and "k < invocations p"
  shows "succeeded k (exec c p) \<and> k < invocations (exec c p)
    \<and> attempts k (exec c p) = attempts k p"
proof (cases "fulfils k c p")
  case False
  then have "retryKept k p (exec c p)" by (rule exec_retryKept)
  with assms show ?thesis by (auto simp add: retryKept_def)
next
  case True
  then obtain i ok where "c = Settle i ok" by (cases c) simp_all
  with assms settle_succeeded [of k p i ok] show ?thesis by simp
qed

lemma execs_succeeded:
  "succeeded k p \<Longrightarrow> k < invocations p \<Longrightarrow>
     succeeded k (execs cs p) \<and> attempts k (execs cs p) = attempts k p"
proof (induction cs arbitrary: p)
  case Nil
  then show ?case by simp
next
  case (Cons c cs)
  from Cons.prems have step: "succeeded k (exec c p)" "k < invocations (exec c p)"
    "attempts k (exec c p) = attempts k p"
    using exec_succeeded [of k p c] by simp_all
  from Cons.IH [OF step(1,2)] step(3) show ?case by simp
qed

lemma execs_retrying:
  "retrying k p \<Longrightarrow> k < invocations p \<Longrightarrow> unfulfilled k cs p \<Longrightarrow>
     retrying k (execs cs p) \<and> k < invocations (execs cs p)
     \<and> attempts k p \<le> attempts k (execs cs p)"
proof (induction cs arbitrary: p)
  case Nil
  then show ?case by simp
next
  case (Cons c cs)
  from Cons.prems(3) have nf: "\<not> fulfils k c p" and rest: "unfulfilled k cs (exec c p)"
    by simp_all
  from nf have "retryKept k p (exec c p)" by (rule exec_retryKept)
  with Cons.prems(1,2) have step: "retrying k (exec c p)" "k < invocations (exec c p)"
    "attempts k p \<le> attempts k (exec c p)"
    by (auto simp add: retryKept_def)
  from Cons.IH [OF step(1,2) rest] step(3) show ?case by simp
qed

lemma retrying_registered: "retrying k p \<Longrightarrow> mediaLoading e \<Longrightarrow> registered e (AttemptPlay k) p"
  by (cases e) (simp_all add: retrying_def)

lemma attemptPlay_attempts:
  "k \<notin> playSuccess p \<Longrightarrow> attempts k (attemptPlay k p) = Suc (attempts k p)"
  by (simp add: attemptPlay_def attempts_def)

lemma runHandlers_attempts:
  "retrying k p \<Longrightarrow> mediaLoading e \<Longrightarrow> AttemptPlay k \<in> set hs \<Longrightarrow>
     attempts k p < attempts k (runHandlers e r hs p)"
proof (induction hs arbitrary: p)
  case Nil
  then show ?case by simp
next
  case (Cons h hs)
  let ?p = "if registered e h p then runHandler h r p else p"
  have kept: "retryKept k p ?p" by (simp add: runHandler_retryKept)
  with Cons.prems(1) have r: "retrying k ?p" and m: "attempts k p \<le> attempts k ?p"
    by (simp_all add: retryKept_def)
  show ?case
  proof (cases "h = AttemptPlay k")
    case True
    from Cons.prems(1,2) have "registered e (AttemptPlay k) p" by (rule retrying_registered)
    with True have "?p = attemptPlay k p" by simp
    moreover from Cons.prems(1) have "k \<notin> playSuccess p" by (simp add: retrying_def)
    ultimately have "attempts k ?p = Suc (attempts k p)" by (simp add: attemptPlay_attempts)
    moreover have "attempts k ?p \<le> attempts k (runHandlers e r hs ?p)"
      using runHandlers_retryKept [of k ?p e r hs] by (simp add: retryKept_def)
    ultimately show ?thesis by simp
  next
    case False
    with Cons.prems(3) have "AttemptPlay k \<in> set hs" by simp
    with r Cons.prems(2) have "attempts k ?p < attempts k (runHandlers e r hs ?p)"
      by (rule Cons.IH)
    with m show ?thesis by simp
  qed
qed

lemma dispatchEvent_attempts:
  assumes "retrying k p" and "mediaLoading e"
  shows "attempts k p < attempts k (dispatchEvent e r p)"
proof -
  from assms have "registered e (AttemptPlay k) p" by (rule retrying_registered)
  then have "AttemptPlay k \<in> set (handlersFor e p)"
    by (auto simp add: registered_def handlersFor_def image_iff split: option.splits)
  with assms show ?thesis unfolding dispatchEvent_def by (rule runHandlers_attempts)
qed

lemma fulfils_succeeded: "fulfils k c p \<Longrightarrow> succeeded k (exec c p)"
proof -
  assume f: "fulfils k c p"
  then obtain i ok where c: "c = Settle i ok" by (cases c) simp_all
  with f have "ok" "i < length (promises p)" "promises p ! i = (ThenSuccess k, Pending)"
    by simp_all
  then have "settle i ok p =
      playSucceeded k (p\<lparr>promises := (promises p)[i := (ThenSuccess k, Fulfilled)]\<rparr>)"
    by (simp add: settle_def Let_def)
  then show ?thesis
    unfolding c by (simp add: succeeded_def registered_playSucceeded)
qed

lemma playSong_start:
  assumes "audioRef p = Some audio" and "filePath song \<noteq> []"
    and "map_option song_id (currentSong (state p)) \<noteq> Some (song_id song)"
  obtains st a where
    "set (el_listeners a) = set (el_listeners audio) \<union>
       {(Error, HandleError (invocations p)), (LoadStart, AttemptPlay (invocations p)),
        (Progress, AttemptPlay (invocations p)), (LoadedData, AttemptPlay (invocations p)),
        (CanPlay, AttemptPlay (invocations p))}"
    "playSong song q p =
       p\<lparr>state := st, audioRef := Some a, invocations := Suc (invocations p),
         promises := promises p @ [(ThenSuccess (invocations p), Pending)],
         apiPlayed := apiPlayed p @ [song_id song]\<rparr>"
proof -
  let ?k = "invocations p"
  let ?a = "call Play
             (addEventListener CanPlay (AttemptPlay ?k)
               (addEventListener LoadedData (AttemptPlay ?k)
                 (addEventListener Progress (AttemptPlay ?k)
                   (addEventListener LoadStart (AttemptPlay ?k)
                     ((addEventListener Error (HandleError ?k)
                        ((call Pause audio)\<lparr>el_currentTime := 0\<rparr>))
                      \<lparr>el_src := filePath song\<rparr>)))))"
  let ?st = "(state p)
               \<lparr>currentSong := Some song,
                isPlaying := True,
                queue := (case q of None \<Rightarrow> [song] | Some qs \<Rightarrow> qs),
                currentIndex :=
                  (case q of
                     None \<Rightarrow> 0
                   | Some qs \<Rightarrow> findIndex (\<lambda>s. song_id s = song_id song) qs)\<rparr>"
  have eq: "playSong song q p =
              p\<lparr>state := ?st, audioRef := Some ?a, invocations := Suc ?k,
                promises := promises p @ [(ThenSuccess ?k, Pending)],
                apiPlayed := apiPlayed p @ [song_id song]\<rparr>"
    by (simp only: playSong_def assms option.case if_False Let_def)
  have ls: "set (el_listeners ?a) = set (el_listeners audio) \<union>
              {(Error, HandleError ?k), (LoadStart, AttemptPlay ?k),
               (Progress, AttemptPlay ?k), (LoadedData, AttemptPlay ?k),
               (CanPlay, AttemptPlay ?k)}"
    by auto
  from ls eq show ?thesis by (rule that)
qed

lemma playSong_starts_retrying:
  assumes "closuresKnown p" and "audioRef p \<noteq> None" and "filePath song \<noteq> []"
    and "map_option song_id (currentSong (state p)) \<noteq> Some (song_id song)"
  shows "retrying (invocations p) (playSong song q p)
    \<and> invocations p < invocations (playSong song q p)
    \<and> attempts (invocations p) (playSong song q p) = 1"
proof -
  from assms(2) obtain audio where au: "audioRef p = Some audio" by auto
  from au assms(3,4) obtain st a where
    ls: "set (el_listeners a) = set (el_listeners audio) \<union>
       {(Error, HandleError (invocations p)), (LoadStart, AttemptPlay (invocations p)),
        (Progress, AttemptPlay (invocations p)), (LoadedData, AttemptPlay (invocations p)),
        (CanPlay, AttemptPlay (invocations p))}"
    and eq: "playSong song q p =
       p\<lparr>state := st, audioRef := Some a, invocations := Suc (invocations p),
         promises := promises p @ [(ThenSuccess (invocations p), Pending)],
         apiPlayed := apiPlayed p @ [song_id song]\<rparr>"
    by (rule playSong_start)
  from assms(1) have fresh: "invocations p \<notin> playSuccess p"
    and none: "\<forall>pr\<in>set (promises p). fst pr \<noteq> ThenSuccess (invocations p)"
    by (auto simp add: closuresKnown_def)
  from none have "filter (\<lambda>pr. fst pr = ThenSuccess (invocations p)) (promises p) = []"
    by (simp add: filter_empty_conv)
  with fresh show ?thesis
    unfolding eq using ls by (simp add: retrying_def registered_def attempts_def)
qed

lemma reachable_execs: "reachable p \<Longrightarrow> reachable (execs cs p)"
  by (induction cs arbitrary: p) (simp_all add: reachable_exec)

lemma succeeded_not_registered:
  "succeeded k p \<Longrightarrow> mediaLoading e \<Longrightarrow> \<not> registered e (AttemptPlay k) p"
  by (cases e) (simp_all add: succeeded_def)

lemma dispatchEvent_quiet:
  assumes "reachable p" and "\<forall>k<invocations p. succeeded k p" and "mediaLoading e"
  shows "dispatchEvent e r p = p"
proof -
  from assms(1) have known: "closuresKnown p" using reachable_invariants by blast
  have "\<not> registered e h p" for h
  proof
    assume reg: "registered e h p"
    with known assms(3) obtain k where h: "h = AttemptPlay k"
      unfolding closuresKnown_def by blast
    with known reg have "k < invocations p" unfolding closuresKnown_def by blast
    with assms(2) have "succeeded k p" by simp
    then have "\<not> registered e (AttemptPlay k) p" using assms(3) by (rule succeeded_not_registered)
    with reg h show False by simp
  qed
  then have "handlersFor e p = []"
    by (auto simp add: handlersFor_def registered_def filter_empty_conv split: option.splits)
  then show ?thesis by (simp add: dispatchEvent_def)
qed

subsection \<open>The call log of the audio element\<close>

lemma el_calls_add [simp]: "el_calls (addEventListener e h a) = el_calls a"
  by (simp add: addEventListener_def)

lemma el_calls_remove [simp]: "el_calls (removeEventListener e h a) = el_calls a"
  by (simp add: removeEventListener_def)

lemma el_calls_call [simp]: "el_calls (call c a) = el_calls a @ [c]"
  by (simp add: call_def)

lemma playSong_callsRecorded: "callsRecorded p \<Longrightarrow> callsRecorded (playSong song q p)"
  by (auto simp add: callsRecorded_def playCalls_def playSong_def Let_def split: option.splits)

lemma playSong_playCalls: "playCalls p \<le> playCalls (playSong song q p)"
  by (auto simp add: playCalls_def playSong_def Let_def split: option.splits)

lemma handleEnded_callsRecorded: "callsRecorded p \<Longrightarrow> callsRecorded (handleEnded r p)"
proof -
  assume h: "callsRecorded p"
  have stop: "callsRecorded (p\<lparr>state := st\<rparr>)" for st
    using h by (simp add: callsRecorded_def playCalls_def)
  have again: "callsRecorded
      (p\<lparr>audioRef := Some (call Play (a\<lparr>el_currentTime := 0\<rparr>)),
         promises := promises p @ [(NoThen, Pending)]\<rparr>)" if "audioRef p = Some a" for a
    using h that by (simp add: callsRecorded_def playCalls_def)
  show ?thesis
    by (simp add: handleEnded_def Let_def h stop again playSong_callsRecorded split: option.splits)
qed

lemma handleEnded_playCalls: "playCalls p \<le> playCalls (handleEnded r p)"
proof -
  have stop: "playCalls p \<le> playCalls (p\<lparr>state := st\<rparr>)" for st
    by (simp add: playCalls_def)
  have again: "playCalls p \<le> playCalls
      (p\<lparr>audioRef := Some (call Play (a\<lparr>el_currentTime := 0\<rparr>)),
         promises := promises p @ [(NoThen, Pending)]\<rparr>)" if "audioRef p = Some a" for a
    using that by (simp add: playCalls_def)
  show ?thesis
    by (simp add: handleEnded_def Let_def stop again playSong_playCalls split: option.splits)
qed

lemma playNext_callsRecorded: "callsRecorded p \<Longrightarrow> callsRecorded (playNext r p)"
proof -
  assume h: "callsRecorded p"
  have stop: "callsRecorded (p\<lparr>state := st\<rparr>)" for st
    using h by (simp add: callsRecorded_def playCalls_def)
  show ?thesis
    by (simp add: playNext_def Let_def h stop playSong_callsRecorded split: option.splits)
qed

lemma playPrevious_callsRecorded: "callsRecorded p \<Longrightarrow> callsRecorded (playPrevious p)"
proof -
  assume h: "callsRecorded p"
  have restart: "callsRecorded
      (p\<lparr>audioRef := map_option (\<lambda>audio. audio\<lparr>el_currentTime := 0\<rparr>) (audioRef p)\<rparr>)"
    using h by (simp add: callsRecorded_def playCalls_def split: option.splits)
  show ?thesis
    by (simp add: playPrevious_def Let_def h restart playSong_callsRecorded split: option.splits)
qed

lemma runHandler_callsRecorded:
  assumes "callsRecorded p" and "registered e h p"
  shows "callsRecorded (runHandler h r p)"
proof (cases h)
  case HandleEnded
  with assms(1) show ?thesis by (simp add: handleEnded_callsRecorded)
next
  case (AttemptPlay k)
  with assms show ?thesis
    by (auto simp add: attemptPlay_def callsRecorded_def playCalls_def registered_def
        split: option.splits)
qed (use assms(1) in \<open>auto simp add: handleTimeUpdate_def handleLoadedMetadata_def
      handleError_def callsRecorded_def playCalls_def split: option.splits\<close>)

lemma runHandler_playCalls: "playCalls p \<le> playCalls (runHandler h r p)"
proof (cases h)
  case HandleEnded
  then show ?thesis by (simp add: handleEnded_playCalls)
qed (auto simp add: handleTimeUpdate_def handleLoadedMetadata_def handleError_def
      attemptPlay_def playCalls_def split: option.splits)

lemma runHandlers_playCalls_mono: "playCalls p \<le> playCalls (runHandlers e r hs p)"
proof (induction hs arbitrary: p)
  case Nil
  show ?case by simp
next
  case (Cons h hs)
  let ?p = "if registered e h p then runHandler h r p else p"
  have "playCalls p \<le> playCalls ?p" by (simp add: runHandler_playCalls)
  also have "\<dots> \<le> playCalls (runHandlers e r hs ?p)" by (rule Cons.IH)
  finally show ?case by simp
qed

lemma attemptPlay_playCalls:
  "k \<notin> playSuccess p \<Longrightarrow> registered e h p \<Longrightarrow>
     playCalls (attemptPlay k p) = Suc (playCalls p)"
  by (auto simp add: attemptPlay_def playCalls_def registered_def split: option.splits)

lemma runHandlers_playCalls:
  "retrying k p \<Longrightarrow> mediaLoading e \<Longrightarrow> AttemptPlay k \<in> set hs \<Longrightarrow>
     playCalls p < playCalls (runHandlers e r hs p)"
proof (induction hs arbitrary: p)
  case Nil
  then show ?case by simp
next
  case (Cons h hs)
  let ?p = "if registered e h p then runHandler h r p else p"
  have kept: "retryKept k p ?p" by (simp add: runHandler_retryKept)
  with Cons.prems(1) have r: "retrying k ?p" by (simp add: retryKept_def)
  have m: "playCalls p \<le> playCalls ?p" by (simp add: runHandler_playCalls)
  show ?case
  proof (cases "h = AttemptPlay k")
    case True
    from Cons.prems(1,2) have reg: "registered e (AttemptPlay k) p" by (rule retrying_registered)
    with True have "?p = attemptPlay k p" by simp
    moreover from Cons.prems(1) have "k \<notin> playSuccess p" by (simp add: retrying_def)
    ultimately have "playCalls ?p = Suc (playCalls p)" using reg by (simp add: attemptPlay_playCalls)
    moreover have "playCalls ?p \<le> playCalls (runHandlers e r hs ?p)"
      by (rule runHandlers_playCalls_mono)
    ultimately show ?thesis by simp
  next
    case False
    with Cons.prems(3) have "AttemptPlay k \<in> set hs" by simp
    with r Cons.prems(2) have "playCalls ?p < playCalls (runHandlers e r hs ?p)"
      by (rule Cons.IH)
    with m show ?thesis by simp
  qed
qed

lemma dispatchEvent_playCalls:
  assumes "retrying k p" and "mediaLoading e"
  shows "playCalls p < playCalls (dispatchEvent e r p)"
proof -
  from assms have "registered e (AttemptPlay k) p" by (rule retrying_registered)
  then have "AttemptPlay k \<in> set (handlersFor e p)"
    by (auto simp add: registered_def handlersFor_def image_iff split: option.splits)
  with assms show ?thesis unfolding dispatchEvent_def by (rule runHandlers_playCalls)
qed

lemma settle_callsRecorded: "callsRecorded p \<Longrightarrow> callsRecorded (settle i ok p)"
proof (cases i ok p rule: settle_cases)
  case unchanged
  assume "callsRecorded p"
  with unchanged show ?thesis by simp
next
  case (settled s)
  assume "callsRecorded p"
  then show ?thesis unfolding settled(2) by (simp add: callsRecorded_def playCalls_def)
next
  case (success k)
  assume "callsRecorded p"
  then show ?thesis
    unfolding success(4)
    by (simp add: callsRecorded_def playCalls_def playSucceeded_def split: option.splits)
qed

lemma exec_callsRecorded: "callsRecorded p \<Longrightarrow> callsRecorded (exec c p)"
proof (cases c)
  case (Fire e r)
  assume "callsRecorded p"
  then have "callsRecorded (dispatchEvent e r p)"
    by (rule dispatchEvent_preserves [where I = callsRecorded, rotated])
      (rule runHandler_callsRecorded)
  with Fire show ?thesis by simp
qed (auto simp add: playSong_callsRecorded playNext_callsRecorded playPrevious_callsRecorded
       settle_callsRecorded,
     auto simp add: callsRecorded_def playCalls_def togglePlay_def seek_def setVolume_def
       toggleShuffle_def toggleRepeat_def addToQueue_def clearQueue_def mediaChange_def Let_def
       split: option.splits)

lemma reachable_callsRecorded: "reachable p \<Longrightarrow> callsRecorded p"
  unfolding reachable_def
proof (induction rule: reach.induct)
  case reach_initial
  show ?case by (simp add: initial_def callsRecorded_def playCalls_def)
next
  case (reach_mount p)
  then show ?case
    by (simp add: mount_def Let_def callsRecorded_def playCalls_def newAudio_def)
next
  case (reach_exec p c)
  then show ?case by (simp add: exec_callsRecorded)
qed

lemma playSong_new_playCalls:
  assumes "audioRef p = Some audio" and "filePath song \<noteq> []"
    and "map_option song_id (currentSong (state p)) \<noteq> Some (song_id song)"
  shows "playCalls (playSong song q p) = Suc (playCalls p)"
  by (simp only: playSong_def assms option.case if_False Let_def) (simp add: playCalls_def assms)

subsection \<open>Evaluating the examples\<close>

lemmas example_defs =
  songA_def songB_def songC_def songA_bare_def initial_def initialState_def mount_def newAudio_def
  call_def addEventListener_def removeEventListener_def playSong_def Let_def

section \<open>The properties\<close>







text \<open>
  Claim C3.  Let \<open>playSong\<close> start a new track in a reachable state; its invocation is
  \<open>k = invocations p\<close>, and its immediate \<^verbatim>\<open>audio.play()\<close> is one more \<open>Play\<close> in the
  element's call log and attempt number one of \<open>k\<close>.  In every reachable state each \<open>Play\<close>
  of the log has its promise and each promise its \<open>Play\<close> (the two counts agree), so the
  attempts of \<open>k\<close> are calls the element received.  Along every run \<open>cs\<close> in which no
  play promise of \<open>k\<close> is fulfilled (the immediate attempt was rejected, or is still
  pending), invocation \<open>k\<close> keeps retrying, and each of the events \<^verbatim>\<open>loadstart\<close>,
  \<^verbatim>\<open>progress\<close>, \<^verbatim>\<open>loadeddata\<close>, \<^verbatim>\<open>canplay\<close> makes it call \<^verbatim>\<open>audio.play()\<close> again: the
  attempts of \<open>k\<close> and the \<open>Play\<close> entries of the log both grow.  As soon as a step fulfils
  one of its promises, its flag \<^verbatim>\<open>playSuccess\<close> is set and its listeners are removed, and
  whatever happens afterwards (any run \<open>cs'\<close> of commands and events) no call of
  \<^verbatim>\<open>audio.play()\<close> is an attempt of \<open>k\<close>; if no other invocation is left retrying, a
  media-loading event then changes nothing at all, the call log included.
\<close>

theorem playSong_retries_until_success:
  assumes "reachable p" and "audioRef p \<noteq> None" and "filePath song \<noteq> []"
    and "map_option song_id (currentSong (state p)) \<noteq> Some (song_id song)"
    and "unfulfilled (invocations p) cs (playSong song q p)"
  shows "attempts (invocations p) (playSong song q p) = 1
    \<and> playCalls (playSong song q p) = Suc (playCalls p)
    \<and> retrying (invocations p) (execs cs (playSong song q p))
    \<and> playCalls (execs cs (playSong song q p)) = length (promises (execs cs (playSong song q p)))
    \<and> (\<forall>e r. mediaLoading e \<longrightarrow>
          attempts (invocations p) (execs cs (playSong song q p))
            < attempts (invocations p) (dispatchEvent e r (execs cs (playSong song q p)))
          \<and> playCalls (execs cs (playSong song q p))
            < playCalls (dispatchEvent e r (execs cs (playSong song q p))))
    \<and> (\<forall>c. fulfils (invocations p) c (execs cs (playSong song q p)) \<longrightarrow>
          succeeded (invocations p) (exec c (execs cs (playSong song q p)))
          \<and> (\<forall>cs'. succeeded (invocations p) (execs cs' (exec c (execs cs (playSong song q p))))
                \<and> attempts (invocations p) (execs cs' (exec c (execs cs (playSong song q p))))
                    = attempts (invocations p) (execs cs (playSong song q p))
                \<and> playCalls (execs cs' (exec c (execs cs (playSong song q p))))
                    = length (promises (execs cs' (exec c (execs cs (playSong song q p)))))
                \<and> ((\<forall>k<invocations (execs cs' (exec c (execs cs (playSong song q p)))).
                       succeeded k (execs cs' (exec c (execs cs (playSong song q p))))) \<longrightarrow>
                    (\<forall>e r. mediaLoading e \<longrightarrow>
                       dispatchEvent e r (execs cs' (exec c (execs cs (playSong song q p))))
                         = execs cs' (exec c (execs cs (playSong song q p)))))))"
proof -
  let ?k = "invocations p"
  let ?p1 = "playSong song q p"
  let ?p2 = "execs cs ?p1"
  from assms(1) have "closuresKnown p" using reachable_invariants by blast
  from playSong_starts_retrying [OF this assms(2-4)]
  have one: "attempts ?k ?p1 = 1" and r1: "retrying ?k ?p1" and k1: "?k < invocations ?p1"
    by simp_all
  from assms(2) obtain audio where "audioRef p = Some audio" by auto
  from this assms(3,4) have first: "playCalls ?p1 = Suc (playCalls p)"
    by (rule playSong_new_playCalls)
  from execs_retrying [OF r1 k1 assms(5)]
  have r2: "retrying ?k ?p2" and k2: "?k < invocations ?p2" by simp_all
  from assms(1) have "reachable (exec (PlaySong song q) p)" by (rule reachable_exec)
  then have "reachable ?p1" by simp
  then have reach2: "reachable ?p2" by (rule reachable_execs)
  then have rec2: "playCalls ?p2 = length (promises ?p2)"
    using reachable_callsRecorded [of ?p2] by (simp add: callsRecorded_def)
  have ev: "attempts ?k ?p2 < attempts ?k (dispatchEvent e r ?p2)
      \<and> playCalls ?p2 < playCalls (dispatchEvent e r ?p2)" if "mediaLoading e" for e r
    using dispatchEvent_attempts [OF r2 that] dispatchEvent_playCalls [OF r2 that] by (intro conjI)
  have fin: "succeeded ?k (exec c ?p2)
      \<and> (\<forall>cs'. succeeded ?k (execs cs' (exec c ?p2))
            \<and> attempts ?k (execs cs' (exec c ?p2)) = attempts ?k ?p2
            \<and> playCalls (execs cs' (exec c ?p2)) = length (promises (execs cs' (exec c ?p2)))
            \<and> ((\<forall>k<invocations (execs cs' (exec c ?p2)). succeeded k (execs cs' (exec c ?p2))) \<longrightarrow>
                (\<forall>e r. mediaLoading e \<longrightarrow>
                   dispatchEvent e r (execs cs' (exec c ?p2)) = execs cs' (exec c ?p2))))"
    if f: "fulfils ?k c ?p2" for c
  proof -
    from f have s: "succeeded ?k (exec c ?p2)" by (rule fulfils_succeeded)
    from f obtain i ok where c: "c = Settle i ok" by (cases c) simp_all
    have same: "attempts ?k (exec c ?p2) = attempts ?k ?p2"
      unfolding c by (simp only: exec.simps settle_attempts)
    have "invocations (exec c ?p2) = invocations ?p2"
      unfolding c by (simp only: exec.simps settle_invocations)
    with k2 have k3: "?k < invocations (exec c ?p2)" by simp
    have "succeeded ?k (execs cs' (exec c ?p2))
            \<and> attempts ?k (execs cs' (exec c ?p2)) = attempts ?k ?p2
            \<and> playCalls (execs cs' (exec c ?p2)) = length (promises (execs cs' (exec c ?p2)))
            \<and> ((\<forall>k<invocations (execs cs' (exec c ?p2)). succeeded k (execs cs' (exec c ?p2))) \<longrightarrow>
                (\<forall>e r. mediaLoading e \<longrightarrow>
                   dispatchEvent e r (execs cs' (exec c ?p2)) = execs cs' (exec c ?p2)))" for cs'
    proof -
      let ?p3 = "execs cs' (exec c ?p2)"
      from reach2 have "reachable (exec c ?p2)" by (rule reachable_exec)
      then have reach3: "reachable ?p3" by (rule reachable_execs)
      then have rec3: "playCalls ?p3 = length (promises ?p3)"
        using reachable_callsRecorded [of ?p3] by (simp add: callsRecorded_def)
      have quiet: "(\<forall>k<invocations ?p3. succeeded k ?p3) \<longrightarrow>
          (\<forall>e r. mediaLoading e \<longrightarrow> dispatchEvent e r ?p3 = ?p3)"
        by (intro impI allI) (rule dispatchEvent_quiet [OF reach3])
      from execs_succeeded [OF s k3, of cs'] same
      have "succeeded ?k ?p3" and "attempts ?k ?p3 = attempts ?k ?p2" by simp_all
      with rec3 quiet show ?thesis by (intro conjI)
    qed
    then have "\<forall>cs'. succeeded ?k (execs cs' (exec c ?p2))
            \<and> attempts ?k (execs cs' (exec c ?p2)) = attempts ?k ?p2
            \<and> playCalls (execs cs' (exec c ?p2)) = length (promises (execs cs' (exec c ?p2)))
            \<and> ((\<forall>k<invocations (execs cs' (exec c ?p2)). succeeded k (execs cs' (exec c ?p2))) \<longrightarrow>
                (\<forall>e r. mediaLoading e \<longrightarrow>
                   dispatchEvent e r (execs cs' (exec c ?p2)) = execs cs' (exec c ?p2)))" ..
    with s show ?thesis ..
  qed
  have ev': "\<forall>e r. mediaLoading e \<longrightarrow>
      attempts ?k ?p2 < attempts ?k (dispatchEvent e r ?p2)
      \<and> playCalls ?p2 < playCalls (dispatchEvent e r ?p2)"
    by (intro allI impI) (rule ev)
  have fin': "\<forall>c. fulfils ?k c ?p2 \<longrightarrow>
      succeeded ?k (exec c ?p2)
      \<and> (\<forall>cs'. succeeded ?k (execs cs' (exec c ?p2))
            \<and> attempts ?k (execs cs' (exec c ?p2)) = attempts ?k ?p2
            \<and> playCalls (execs cs' (exec c ?p2)) = length (promises (execs cs' (exec c ?p2)))
            \<and> ((\<forall>k<invocations (execs cs' (exec c ?p2)). succeeded k (execs cs' (exec c ?p2))) \<longrightarrow>
                (\<forall>e r. mediaLoading e \<longrightarrow>
                   dispatchEvent e r (execs cs' (exec c ?p2)) = execs cs' (exec c ?p2))))"
    by (intro allI impI) (rule fin)
  from one first r2 rec2 ev' fin' show ?thesis by (intro conjI)
qed

theorem playSong_retries_until_success_witness:
  "reachable (mount initial)
   \<and> audioRef (mount initial) \<noteq> None
   \<and> filePath songA \<noteq> []
   \<and> map_option song_id (currentSong (state (mount initial))) \<noteq> Some (song_id songA)
   \<and> invocations (mount initial) = 0
   \<and> unfulfilled 0 [Settle 0 False, Fire Progress 0] (playSong songA None (mount initial))
   \<and> mediaLoading CanPlay
   \<and> fulfils 0 (Settle 1 True)
        (execs [Settle 0 False, Fire Progress 0] (playSong songA None (mount initial)))
   \<and> attempts 0 (playSong songA None (mount initial)) = 1
   \<and> playCalls (playSong songA None (mount initial)) = 1
   \<and> attempts 0 (execs [Settle 0 False, Fire Progress 0] (playSong songA None (mount initial))) = 2
   \<and> playCalls (execs [Settle 0 False, Fire Progress 0] (playSong songA None (mount initial))) = 2
   \<and> retrying 0 (execs [Settle 0 False, Fire Progress 0] (playSong songA None (mount initial)))
   \<and> 2 < attempts 0 (dispatchEvent CanPlay 0
        (execs [Settle 0 False, Fire Progress 0] (playSong songA None (mount initial))))
   \<and> 2 < playCalls (dispatchEvent CanPlay 0
        (execs [Settle 0 False, Fire Progress 0] (playSong songA None (mount initial))))
   \<and> succeeded 0 (exec (Settle 1 True)
        (execs [Settle 0 False, Fire Progress 0] (playSong songA None (mount initial))))
   \<and> attempts 0 (execs [Fire Progress 0, Fire CanPlay 0, Fire LoadedData 0]
        (exec (Settle 1 True)
          (execs [Settle 0 False, Fire Progress 0] (playSong songA None (mount initial))))) = 2
   \<and> dispatchEvent CanPlay 0 (exec (Settle 1 True)
          (execs [Settle 0 False, Fire Progress 0] (playSong songA None (mount initial))))
       = exec (Settle 1 True)
          (execs [Settle 0 False, Fire Progress 0] (playSong songA None (mount initial)))
   \<and> playCalls (dispatchEvent CanPlay 0 (exec (Settle 1 True)
          (execs [Settle 0 False, Fire Progress 0] (playSong songA None (mount initial))))) = 2"
proof -
  let ?p1 = "playSong songA None (mount initial)"
  let ?cs = "[Settle 0 False, Fire Progress 0]"
  let ?p2 = "execs ?cs ?p1"
  let ?p3 = "exec (Settle 1 True) ?p2"
  have h1: "reachable (mount initial)" by (rule reachable_mount_initial)
  have h2: "audioRef (mount initial) \<noteq> None" by (simp add: mount_def Let_def)
  have h3: "filePath songA \<noteq> []" by (simp add: songA_def)
  have h4: "map_option song_id (currentSong (state (mount initial))) \<noteq> Some (song_id songA)"
    by (simp add: mount_def Let_def initial_def initialState_def)
  have k: "invocations (mount initial) = 0" by (simp add: mount_def Let_def initial_def)
  have c0: "playCalls (mount initial) = 0"
    by (simp add: playCalls_def mount_def Let_def newAudio_def)
  have h5: "unfulfilled 0 ?cs ?p1" by simp
  have m: "mediaLoading CanPlay" by simp
  have pr: "promises ?p2 = [(ThenSuccess 0, Rejected), (ThenSuccess 0, Pending)]"
    and n2: "invocations ?p2 = 1"
    by (simp_all add: example_defs settle_def dispatchEvent_def handlersFor_def registered_def
        attemptPlay_def)
  from pr have f: "fulfils 0 (Settle 1 True) ?p2" by simp
  from pr have two: "attempts 0 ?p2 = 2" by (simp add: attempts_def)
  have "invocations ?p3 = invocations ?p2" by (simp only: exec.simps settle_invocations)
  with n2 have n3: "invocations ?p3 = 1" by simp
  note inst = playSong_retries_until_success [OF h1 h2 h3 h4, of ?cs None, unfolded k, OF h5]
  from inst have one: "attempts 0 ?p1 = 1" and r: "retrying 0 ?p2" by blast+
  from inst have "playCalls ?p1 = Suc (playCalls (mount initial))" by blast
  with c0 have call1: "playCalls ?p1 = 1" by simp
  from inst have "playCalls ?p2 = length (promises ?p2)" by blast
  with pr have call2: "playCalls ?p2 = 2" by simp
  from inst m have "attempts 0 ?p2 < attempts 0 (dispatchEvent CanPlay 0 ?p2)"
    and "playCalls ?p2 < playCalls (dispatchEvent CanPlay 0 ?p2)" by blast+
  with two call2 have more: "2 < attempts 0 (dispatchEvent CanPlay 0 ?p2)"
    and calls: "2 < playCalls (dispatchEvent CanPlay 0 ?p2)" by simp_all
  from inst f have s: "succeeded 0 ?p3" by blast
  from inst f have "attempts 0 (execs [Fire Progress 0, Fire CanPlay 0, Fire LoadedData 0] ?p3)
      = attempts 0 ?p2" by blast
  with two have still: "attempts 0 (execs [Fire Progress 0, Fire CanPlay 0, Fire LoadedData 0] ?p3)
      = 2" by simp
  from s n3 have all: "\<forall>k<invocations (execs [] ?p3). succeeded k (execs [] ?p3)" by simp
  from inst f have "(\<forall>k<invocations (execs [] ?p3). succeeded k (execs [] ?p3)) \<longrightarrow>
      (\<forall>e r. mediaLoading e \<longrightarrow> dispatchEvent e r (execs [] ?p3) = execs [] ?p3)" by blast
  with all m have "dispatchEvent CanPlay 0 (execs [] ?p3) = execs [] ?p3" by blast
  then have quiet: "dispatchEvent CanPlay 0 ?p3 = ?p3" by (simp only: execs.simps)
  from inst f have "playCalls (execs [] ?p3) = length (promises (execs [] ?p3))" by blast
  then have "playCalls ?p3 = length (promises ?p3)" by (simp only: execs.simps)
  moreover have "length (promises ?p3) = length (promises ?p2)"
    by (cases "1::nat" True ?p2 rule: settle_cases) simp_all
  ultimately have "playCalls ?p3 = 2" using pr by simp
  with quiet have after: "playCalls (dispatchEvent CanPlay 0 ?p3) = 2" by simp
  from h1 h2 h3 h4 k h5 m f one call1 two call2 r more calls s still quiet after
  show ?thesis by (intro conjI)
qed

text \<open>
  Claim C4 (as amended).  In a reachable state, \<open>playSong song\<close> for a song that has a file
  path and the id of the current song only toggles playback: \<open>isPlaying\<close> is negated, the
  audio element receives \<^verbatim>\<open>pause()\<close> when it was playing and \<^verbatim>\<open>play()\<close> when it was not,
  and nothing else changes: the other fields of the state, the element's position, source
  and listeners are as before, and no new invocation is counted.
\<close>

theorem playSong_same_song_toggles:
  assumes "reachable p"
    and "filePath song \<noteq> []"
    and "map_option song_id (currentSong (state p)) = Some (song_id song)"
  shows "isPlaying (state (playSong song q p)) = (\<not> isPlaying (state p))
    \<and> (\<exists>audio. audioRef p = Some audio
          \<and> audioRef (playSong song q p)
              = Some (call (if isPlaying (state p) then Pause else Play) audio))
    \<and> currentSong (state (playSong song q p)) = currentSong (state p)
    \<and> queue (state (playSong song q p)) = queue (state p)
    \<and> currentIndex (state (playSong song q p)) = currentIndex (state p)
    \<and> currentTime (state (playSong song q p)) = currentTime (state p)
    \<and> volume (state (playSong song q p)) = volume (state p)
    \<and> isShuffled (state (playSong song q p)) = isShuffled (state p)
    \<and> repeatMode (state (playSong song q p)) = repeatMode (state p)
    \<and> (state (playSong song q p))\<lparr>isPlaying := isPlaying (state p)\<rparr> = state p
    \<and> invocations (playSong song q p) = invocations p
    \<and> apiPlayed (playSong song q p) = apiPlayed p"
proof -
  from assms(3) have "currentSong (state p) \<noteq> None" by auto
  with assms(1) obtain audio where a: "audioRef p = Some audio"
    using reachable_hasAudio by blast
  show ?thesis
    using assms(2,3) a by (cases "isPlaying (state p)") (simp_all add: playSong_def)
qed

theorem playSong_same_song_toggles_witness:
  "reachable (exec (PlaySong songA None) (mount initial))
   \<and> filePath songA \<noteq> []
   \<and> map_option song_id (currentSong (state (exec (PlaySong songA None) (mount initial))))
       = Some (song_id songA)
   \<and> isPlaying (state (exec (PlaySong songA None) (mount initial)))
   \<and> \<not> isPlaying (state (playSong songA None (exec (PlaySong songA None) (mount initial))))
   \<and> currentSong (state (playSong songA None (exec (PlaySong songA None) (mount initial))))
       = Some songA"
proof -
  let ?p = "exec (PlaySong songA None) (mount initial)"
  have r: "reachable ?p"
    by (intro reachable_exec reachable_mount_initial)
  have f: "filePath songA \<noteq> []" by (simp add: songA_def)
  have st: "state (playSong songA None (mount initial)) =
      initialState\<lparr>currentSong := Some songA, isPlaying := True, queue := [songA],
        currentIndex := 0\<rparr>"
    by (simp add: example_defs)
  have c: "map_option song_id (currentSong (state ?p)) = Some (song_id songA)"
    and i: "isPlaying (state ?p)" and s: "currentSong (state ?p) = Some songA"
    by (simp_all add: st)
  from playSong_same_song_toggles [OF r f c, of None] i s
  have "\<not> isPlaying (state (playSong songA None ?p))"
    and "currentSong (state (playSong songA None ?p)) = Some songA" by simp_all
  with r f c i show ?thesis by (intro conjI)
qed

theorem playSong_same_song_toggles_counterexample:
  "reachable (exec (PlaySong songA None) (mount initial))
   \<and> map_option song_id (currentSong (state (exec (PlaySong songA None) (mount initial))))
       = Some (song_id songA_bare)
   \<and> isPlaying (state (exec (PlaySong songA None) (mount initial)))
   \<and> isPlaying (state (playSong songA_bare None (exec (PlaySong songA None) (mount initial))))
   \<and> playSong songA_bare None (exec (PlaySong songA None) (mount initial))
       = exec (PlaySong songA None) (mount initial)"
proof -
  let ?p = "exec (PlaySong songA None) (mount initial)"
  have r: "reachable ?p"
    by (intro reachable_exec reachable_mount_initial)
  have st: "state (playSong songA None (mount initial)) =
      initialState\<lparr>currentSong := Some songA, isPlaying := True, queue := [songA],
        currentIndex := 0\<rparr>"
    by (simp add: example_defs)
  have same: "song_id songA = song_id songA_bare"
    by (simp add: songA_def songA_bare_def)
  have c: "map_option song_id (currentSong (state ?p)) = Some (song_id songA_bare)"
    and i: "isPlaying (state ?p)"
    by (simp_all add: st same)
  have e: "playSong songA_bare None ?p = ?p"
    by (rule playSong_no_filePath) (simp add: songA_bare_def)
  from i e have i': "isPlaying (state (playSong songA_bare None ?p))" by simp
  from r c i i' e show ?thesis by (intro conjI)
qed

text \<open>
  Claim C5.  In a state with a non-empty queue, shuffle off, repeat mode \<open>off\<close> and the
  current index on the last position, \<open>playNext\<close> sets \<open>isPlaying\<close> to false and changes
  nothing else (neither another field of the state nor the audio element): playback stops
  at the end of the queue, it does not wrap around.  The listener of \<^verbatim>\<open>ended\<close> does the same.
\<close>

theorem playNext_stops_at_end:
  assumes "queue (state p) \<noteq> []"
    and "\<not> isShuffled (state p)"
    and "repeatMode (state p) = RepeatOff"
    and "currentIndex (state p) = int (length (queue (state p))) - 1"
  shows "isPlaying (state (playNext r p)) = False
   \<and> currentSong (state (playNext r p)) = currentSong (state p)
   \<and> currentIndex (state (playNext r p)) = currentIndex (state p)
   \<and> queue (state (playNext r p)) = queue (state p)
   \<and> (state (playNext r p))\<lparr>isPlaying := isPlaying (state p)\<rparr> = state p
   \<and> (playNext r p)\<lparr>state := state p\<rparr> = p
   \<and> handleEnded r p = playNext r p"
  using assms by (simp add: playNext_def handleEnded_def nextIndex_def js_rem_self Let_def)

theorem playNext_stops_at_end_witness:
  "queue (state (playSong songB (Some [songA, songB]) (mount initial))) = [songA, songB]
   \<and> currentIndex (state (playSong songB (Some [songA, songB]) (mount initial))) = 1
   \<and> isPlaying (state (playSong songB (Some [songA, songB]) (mount initial)))
   \<and> \<not> isPlaying (state (playNext 0 (playSong songB (Some [songA, songB]) (mount initial))))
   \<and> currentSong (state (playNext 0 (playSong songB (Some [songA, songB]) (mount initial))))
       = Some songB
   \<and> currentIndex (state (playNext 0 (playSong songB (Some [songA, songB]) (mount initial)))) = 1"
proof -
  let ?p = "playSong songB (Some [songA, songB]) (mount initial)"
  have st: "state ?p = initialState\<lparr>currentSong := Some songB, isPlaying := True,
      queue := [songA, songB], currentIndex := 1\<rparr>"
    by (simp add: example_defs)
  have "queue (state ?p) \<noteq> []" "\<not> isShuffled (state ?p)" "repeatMode (state ?p) = RepeatOff"
    "currentIndex (state ?p) = int (length (queue (state ?p))) - 1"
    by (simp_all add: st initialState_def)
  from playNext_stops_at_end [OF this, of 0] show ?thesis
    by (simp add: st initialState_def)
qed

text \<open>
  Claim C6.  In a reachable state with a current song, \<open>togglePlay\<close> negates \<open>isPlaying\<close>
  (calling \<^verbatim>\<open>pause()\<close> on the audio element when it was playing, \<^verbatim>\<open>play()\<close> when it was
  not) and changes no other field of the state, so two applications restore the state;
  without a current song it changes nothing at all.
\<close>

theorem togglePlay_negates:
  assumes "reachable p"
  shows "(currentSong (state p) \<noteq> None \<longrightarrow>
            isPlaying (state (togglePlay p)) = (\<not> isPlaying (state p))
          \<and> (\<exists>audio. audioRef p = Some audio
                \<and> audioRef (togglePlay p)
                    = Some (call (if isPlaying (state p) then Pause else Play) audio))
          \<and> (state (togglePlay p))\<lparr>isPlaying := isPlaying (state p)\<rparr> = state p
          \<and> isPlaying (state (togglePlay (togglePlay p))) = isPlaying (state p)
          \<and> state (togglePlay (togglePlay p)) = state p)
       \<and> (currentSong (state p) = None \<longrightarrow> togglePlay p = p)"
proof (cases "currentSong (state p) = None")
  case True
  then show ?thesis by (simp add: togglePlay_def split: option.splits)
next
  case False
  with assms obtain audio where a: "audioRef p = Some audio"
    using reachable_hasAudio by blast
  show ?thesis
    using False a by (cases "isPlaying (state p)") (simp_all add: togglePlay_def Let_def)
qed

theorem togglePlay_negates_witness:
  "reachable (exec (PlaySong songA None) (mount initial))
   \<and> currentSong (state (exec (PlaySong songA None) (mount initial))) \<noteq> None
   \<and> isPlaying (state (exec (PlaySong songA None) (mount initial)))
   \<and> \<not> isPlaying (state (togglePlay (exec (PlaySong songA None) (mount initial))))
   \<and> isPlaying (state (togglePlay (togglePlay (exec (PlaySong songA None) (mount initial)))))
   \<and> reachable (mount initial)
   \<and> currentSong (state (mount initial)) = None
   \<and> togglePlay (mount initial) = mount initial"
proof -
  let ?p = "exec (PlaySong songA None) (mount initial)"
  have r: "reachable ?p" and r0: "reachable (mount initial)"
    by (intro reachable_exec reachable_mount_initial)+
  have st: "state (playSong songA None (mount initial)) =
      initialState\<lparr>currentSong := Some songA, isPlaying := True, queue := [songA],
        currentIndex := 0\<rparr>"
    by (simp add: example_defs)
  have s: "currentSong (state ?p) \<noteq> None" and i: "isPlaying (state ?p)"
    by (simp_all add: st)
  have s0: "currentSong (state (mount initial)) = None"
    by (simp add: mount_def initial_def initialState_def Let_def)
  from togglePlay_negates [OF r] s i
  have a: "\<not> isPlaying (state (togglePlay ?p))"
    and b: "isPlaying (state (togglePlay (togglePlay ?p)))" by simp_all
  from togglePlay_negates [OF r0] s0 have c: "togglePlay (mount initial) = mount initial"
    by blast
  from r s i a b r0 s0 c show ?thesis by (intro conjI)
qed

text \<open>
  Claim C7.  With the audio element in place, \<open>seek t\<close> stores \<open>t\<close> itself, whatever its
  value, in the element's \<^verbatim>\<open>currentTime\<close> and in the state's \<open>currentTime\<close>; every other
  field of the state and of the player is as before.
\<close>

theorem seek_sets_position:
  assumes "audioRef p = Some audio"
  shows "currentTime (state (seek t p)) = t
   \<and> audioRef (seek t p) = Some (audio\<lparr>el_currentTime := t\<rparr>)
   \<and> currentSong (state (seek t p)) = currentSong (state p)
   \<and> queue (state (seek t p)) = queue (state p)
   \<and> currentIndex (state (seek t p)) = currentIndex (state p)
   \<and> volume (state (seek t p)) = volume (state p)
   \<and> isPlaying (state (seek t p)) = isPlaying (state p)
   \<and> isShuffled (state (seek t p)) = isShuffled (state p)
   \<and> repeatMode (state (seek t p)) = repeatMode (state p)
   \<and> duration (state (seek t p)) = duration (state p)
   \<and> (state (seek t p))\<lparr>currentTime := currentTime (state p)\<rparr> = state p
   \<and> (seek t p)\<lparr>state := state p, audioRef := audioRef p\<rparr> = p"
  using assms by (simp add: seek_def)

theorem seek_sets_position_witness:
  "audioRef (mount initial) \<noteq> None
   \<and> currentTime (state (seek (- 5) (mount initial))) = - 5
   \<and> map_option el_currentTime (audioRef (seek (- 5) (mount initial))) = Some (- 5)
   \<and> duration (state (seek (- 5) (mount initial))) = 0"
proof -
  obtain audio where a: "audioRef (mount initial) = Some audio"
    by (simp add: mount_def Let_def)
  from seek_sets_position [OF a, of "- 5"] a show ?thesis
    by (simp add: initial_def initialState_def mount_def Let_def)
qed

text \<open>
  Claim C8.  \<open>addToQueue song\<close> appends the song to the queue: the old entries stay in
  order in front of it, and no other field of the state or of the player changes.
\<close>

theorem addToQueue_appends:
  "queue (state (addToQueue song p)) = queue (state p) @ [song]
   \<and> take (length (queue (state p))) (queue (state (addToQueue song p))) = queue (state p)
   \<and> currentSong (state (addToQueue song p)) = currentSong (state p)
   \<and> currentIndex (state (addToQueue song p)) = currentIndex (state p)
   \<and> isPlaying (state (addToQueue song p)) = isPlaying (state p)
   \<and> currentTime (state (addToQueue song p)) = currentTime (state p)
   \<and> volume (state (addToQueue song p)) = volume (state p)
   \<and> isShuffled (state (addToQueue song p)) = isShuffled (state p)
   \<and> repeatMode (state (addToQueue song p)) = repeatMode (state p)
   \<and> (state (addToQueue song p))\<lparr>queue := queue (state p)\<rparr> = state p
   \<and> (addToQueue song p)\<lparr>state := state p\<rparr> = p"
  by (simp add: addToQueue_def)

text \<open>
  Claim C9.  A player state is its nine components, no more: the current song (or none),
  the play flag, the current time and the duration, the volume, the queue with the
  current index, the shuffle flag and the repeat mode; and the repeat mode has exactly
  the three values \<open>off\<close>, \<open>all\<close>, \<open>one\<close>.
\<close>

theorem playerState_components:
  "(s = t) =
     (currentSong s = currentSong t \<and> isPlaying s = isPlaying t
      \<and> currentTime s = currentTime t \<and> duration s = duration t \<and> volume s = volume t
      \<and> queue s = queue t \<and> currentIndex s = currentIndex t
      \<and> isShuffled s = isShuffled t \<and> repeatMode s = repeatMode t)
   \<and> s = \<lparr>currentSong = currentSong s, isPlaying = isPlaying s, currentTime = currentTime s,
          duration = duration s, volume = volume s, queue = queue s,
          currentIndex = currentIndex s, isShuffled = isShuffled s,
          repeatMode = repeatMode s\<rparr>
   \<and> (UNIV :: RepeatMode set) = {RepeatOff, RepeatAll, RepeatOne}
   \<and> card (UNIV :: RepeatMode set) = 3
   \<and> repeatMode s \<in> {RepeatOff, RepeatAll, RepeatOne}"
  for s t :: PlayerState
proof -
  have u: "(UNIV :: RepeatMode set) = {RepeatOff, RepeatAll, RepeatOne}"
  proof -
    have "m \<in> {RepeatOff, RepeatAll, RepeatOne}" for m :: RepeatMode by (cases m) simp_all
    then show ?thesis by blast
  qed
  have c: "card (UNIV :: RepeatMode set) = 3" unfolding u by simp
  have e: "(s = t) =
     (currentSong s = currentSong t \<and> isPlaying s = isPlaying t
      \<and> currentTime s = currentTime t \<and> duration s = duration t \<and> volume s = volume t
      \<and> queue s = queue t \<and> currentIndex s = currentIndex t
      \<and> isShuffled s = isShuffled t \<and> repeatMode s = repeatMode t)"
    by (cases s, cases t) auto
  have m: "repeatMode s \<in> {RepeatOff, RepeatAll, RepeatOne}" using u by blast
  from e u c m show ?thesis by simp
qed

text \<open>
  Claim C10.  \<open>toggleRepeat\<close> moves the repeat mode along \<open>off\<close>, \<open>all\<close>, \<open>one\<close>, \<open>off\<close> and
  changes nothing else, so three applications give the original player back.
\<close>

theorem toggleRepeat_cycle:
  "repeatMode (state (toggleRepeat p)) =
     (case repeatMode (state p) of RepeatOff \<Rightarrow> RepeatAll | RepeatAll \<Rightarrow> RepeatOne | RepeatOne \<Rightarrow> RepeatOff)
   \<and> (state (toggleRepeat p))\<lparr>repeatMode := repeatMode (state p)\<rparr> = state p
   \<and> (toggleRepeat p)\<lparr>state := state p\<rparr> = p
   \<and> toggleRepeat (toggleRepeat (toggleRepeat p)) = p"
  by (cases "repeatMode (state p)") (simp_all add: toggleRepeat_def)

end
